theory Spec2Isabelle
  imports Main
begin

section \<open>Errors\<close>

text \<open>
  Every error return and every panic of the source is a value.  A parse error carries
  the position \<open>i\<close> where the source reports one.
\<close>

datatype parse_cause =
    SignAlreadyFound nat
  | ESignAlreadyFound nat
  | SignAfterDigit nat
  | SignAfterDecimalPoint nat
  | DecimalPointAlreadyFound nat
  | DecimalPointInE nat
  | EAlreadyFound nat
  | MissingNumberBeforeE
  | InvalidBigFloatNumber
  | InvalidENumber
  | InvalidNumber

datatype error =
    ParseError parse_cause
  | DivisionByZero
  | NegativeRepeatCount
  | NegativeDecimalPlaces
  | InvalidDecimalNumber
  | IntegerDivideByZero
  | IndexOutOfRange

section \<open>The lexical analyzer (stranalyzer.go)\<close>

text \<open>
  A literal is the list of its runes.  The model covers literals of ASCII characters,
  one \<open>char\<close> per rune: there \<open>unicode.IsGraphic\<close> holds of the codes 32 to 126
  and \<open>unicode.IsDigit\<close> of the codes 48 to 57.  A character beyond ASCII is
  treated as a graphic character that is no digit.
\<close>

record Analysis =
  Norm :: string
  Sign :: int
  Decimals :: int
  Len :: int

definition visible :: "char \<Rightarrow> bool" where
  "visible c = (32 \<le> (of_char c :: nat) \<and> (of_char c :: nat) \<noteq> 127)"

definition IsDigit :: "char \<Rightarrow> bool" where
  "IsDigit c = (48 \<le> (of_char c :: nat) \<and> (of_char c :: nat) \<le> 57)"

text \<open>The local variables of \<open>Analyze\<close>, with the fields of the result \<open>a\<close>.\<close>

record scan =
  a_Sign :: int
  a_Decimals :: int
  a_Len :: int
  signFound :: bool
  decimalPointFound :: bool
  eFound :: bool
  eSign :: int
  eSignFound :: bool
  digitFound :: bool
  nonZeroDigitFound :: bool
  normBuf :: string
  eBuf :: string

definition scan_init :: scan where
  "scan_init = \<lparr>a_Sign = 1, a_Decimals = 0, a_Len = 0, signFound = False,
     decimalPointFound = False, eFound = False, eSign = 1, eSignFound = False,
     digitFound = False, nonZeroDigitFound = False, normBuf = [], eBuf = []\<rparr>"

text \<open>One iteration of the loop over the runes, at position \<open>i\<close>.\<close>

definition scan_rune :: "nat \<Rightarrow> char \<Rightarrow> scan \<Rightarrow> error + scan" where
  "scan_rune i c s =
    (if \<not> visible c then Inr s
     else if c = CHR ''+'' \<or> c = CHR ''-'' then
       (if signFound s \<and> \<not> eFound s then Inl (ParseError (SignAlreadyFound i))
        else if eSignFound s \<and> eFound s then Inl (ParseError (ESignAlreadyFound i))
        else if digitFound s \<and> \<not> eFound s then Inl (ParseError (SignAfterDigit i))
        else if decimalPointFound s \<and> \<not> eFound s then Inl (ParseError (SignAfterDecimalPoint i))
        else if eFound s then
          Inr (s\<lparr>eSignFound := True, eSign := (if c = CHR ''-'' then - 1 else eSign s)\<rparr>)
        else
          Inr (s\<lparr>signFound := True, a_Sign := (if c = CHR ''-'' then - 1 else a_Sign s)\<rparr>))
     else if c = CHR ''.'' then
       (if decimalPointFound s then Inl (ParseError (DecimalPointAlreadyFound i))
        else if eFound s then Inl (ParseError (DecimalPointInE i))
        else if \<not> nonZeroDigitFound s then
          Inr (s\<lparr>decimalPointFound := True, normBuf := normBuf s @ [CHR ''0''],
                 a_Len := a_Len s + 1\<rparr>)
        else Inr (s\<lparr>decimalPointFound := True\<rparr>))
     else if c = CHR ''E'' \<or> c = CHR ''e'' then
       (if eFound s then Inl (ParseError (EAlreadyFound i))
        else if \<not> nonZeroDigitFound s then Inl (ParseError MissingNumberBeforeE)
        else Inr (s\<lparr>eFound := True\<rparr>))
     else if IsDigit c then
       (if \<not> eFound s then
          (if decimalPointFound s \<or> c \<noteq> CHR ''0'' \<or> (digitFound s \<and> nonZeroDigitFound s) then
             Inr (s\<lparr>normBuf := normBuf s @ [c],
                    a_Len := a_Len s + 1,
                    a_Decimals := (if decimalPointFound s then a_Decimals s + 1 else a_Decimals s),
                    nonZeroDigitFound := (if c \<noteq> CHR ''0'' then True else nonZeroDigitFound s),
                    digitFound := True\<rparr>)
           else Inr (s\<lparr>digitFound := True\<rparr>))
        else Inr (s\<lparr>eBuf := eBuf s @ [c], digitFound := True\<rparr>))
     else if c = CHR '' '' then Inr s
     else Inl (ParseError InvalidBigFloatNumber))"

fun scan_loop :: "nat \<Rightarrow> string \<Rightarrow> scan \<Rightarrow> error + scan" where
  "scan_loop i [] s = Inr s"
| "scan_loop i (c # cs) s =
    (case scan_rune i c s of Inl e \<Rightarrow> Inl e | Inr s' \<Rightarrow> scan_loop (i + 1) cs s')"

text \<open>
  \<open>strconv.ParseInt(eValue, 10, 0)\<close> on a string of decimal digits: the value, or the
  largest 64-bit integer when the value is out of range (the error is dropped by the
  caller).
\<close>

definition digit_val :: "char \<Rightarrow> int" where
  "digit_val c = of_char c - 48"

definition dec_val :: "string \<Rightarrow> int" where
  "dec_val s = foldl (\<lambda>n c. 10 * n + digit_val c) 0 s"

definition ParseInt :: "string \<Rightarrow> int" where
  "ParseInt s = min (dec_val s) (2 ^ 63 - 1)"

text \<open>\<open>bytes.Repeat\<close> panics on a negative count.\<close>

definition Repeat :: "string \<Rightarrow> int \<Rightarrow> error + string" where
  "Repeat b n = (if n < 0 then Inl NegativeRepeatCount else Inr (concat (replicate (nat n) b)))"

definition fold_exponent :: "scan \<Rightarrow> Analysis \<Rightarrow> error + Analysis" where
  "fold_exponent s a =
    (if eFound s then
       (let eInt = ParseInt (eBuf s) in
        if eSign s = 1 then
          (let d = Decimals a - eInt;
               eInt' = (if d < 0 then - d else eInt - d);
               d' = (if d < 0 then 0 else d)
           in case Repeat ''0'' eInt' of
                Inl e \<Rightarrow> Inl e
              | Inr z \<Rightarrow> Inr (a\<lparr>Norm := Norm a @ z, Decimals := d', Len := Len a + eInt'\<rparr>))
        else
          (let d = Decimals a + eInt in
           if d \<ge> Len a then
             (let eInt' = d - Len a + 1 in
              case Repeat ''0'' eInt' of
                Inl e \<Rightarrow> Inl e
              | Inr z \<Rightarrow> Inr (a\<lparr>Norm := z @ Norm a, Decimals := d, Len := Len a + eInt'\<rparr>))
           else Inr (a\<lparr>Decimals := d\<rparr>)))
     else Inr a)"

definition Analyze :: "string \<Rightarrow> error + Analysis" where
  "Analyze str =
    (case scan_loop 0 str scan_init of
       Inl e \<Rightarrow> Inl e
     | Inr s \<Rightarrow>
        if eFound s \<and> eBuf s = [] then Inl (ParseError InvalidENumber)
        else if \<not> digitFound s then Inl (ParseError InvalidNumber)
        else
          (let s1 = (if digitFound s \<and> a_Len s = 0
                     then s\<lparr>normBuf := normBuf s @ [CHR ''0''], a_Len := a_Len s + 1\<rparr> else s);
               sg = (if \<not> nonZeroDigitFound s1 \<and> a_Sign s1 \<noteq> 1 then 1 else a_Sign s1);
               a = \<lparr>Norm = normBuf s1, Sign = sg, Decimals = a_Decimals s1, Len = a_Len s1\<rparr>
           in fold_exponent s1 a))"

section \<open>Values (bigfloat.go)\<close>

text \<open>
  A \<open>BigFloat\<close> holds one \<open>Analysis\<close>.  A method with a pointer receiver is a
  function from the receiver's value to its new value; the destination of an
  operation is taken to be an object of its own, distinct from the operands, except
  where the source itself passes the receiver as an operand.  A byte is a \<open>char\<close>:
  \<open>of_char\<close> reads it and \<open>char_of\<close> converts an integer modulo 256.  Slices
  \<open>b[:k]\<close> and \<open>b[k:]\<close> are \<open>take\<close> and \<open>drop\<close>; counters are unbounded
  integers, that is, buffers are taken to be shorter than \<open>2 ^ 63\<close> bytes.
\<close>

type_synonym BigFloat = Analysis

text \<open>The value of \<open>&BigFloat{}\<close>.\<close>

definition BigFloat0 :: BigFloat where
  "BigFloat0 = \<lparr>Norm = [], Sign = 0, Decimals = 0, Len = 0\<rparr>"

definition New :: BigFloat where
  "New = \<lparr>Norm = ''0'', Sign = 1, Decimals = 0, Len = 1\<rparr>"

definition maxInt :: "int \<Rightarrow> int \<Rightarrow> int" where
  "maxInt a b = (if a > b then a else b)"

definition SetString :: "BigFloat \<Rightarrow> string \<Rightarrow> error + BigFloat" where
  "SetString f s = (case Analyze s of Inl e \<Rightarrow> Inl e | Inr a \<Rightarrow> Inr a)"

text \<open>\<open>strconv.FormatInt(n, 10)\<close>.\<close>

fun FormatNat :: "nat \<Rightarrow> string" where
  "FormatNat n = (if n < 10 then [char_of (48 + n)] else FormatNat (n div 10) @ [char_of (48 + n mod 10)])"

definition FormatInt :: "int \<Rightarrow> string" where
  "FormatInt n = (if n < 0 then CHR ''-'' # FormatNat (nat (- n)) else FormatNat (nat n))"

text \<open>\<open>SetInt64\<close> drops the error of \<open>SetString\<close>, which leaves the receiver as it was.\<close>

definition SetInt64 :: "BigFloat \<Rightarrow> int \<Rightarrow> BigFloat" where
  "SetInt64 f n = (case SetString f (FormatInt n) of Inl e \<Rightarrow> f | Inr f' \<Rightarrow> f')"

definition mul :: "char \<Rightarrow> char \<Rightarrow> int" where
  "mul a b = of_char (char_of ((of_char a - 48) * (of_char b - 48) :: int))"

definition add_bytes :: "string \<Rightarrow> int \<Rightarrow> string" where
  "add_bytes a v = map (\<lambda>c. char_of ((of_char c :: int) + v)) a"

definition fill :: "int \<Rightarrow> char \<Rightarrow> string" where
  "fill n v = replicate (nat n) v"

definition reverse :: "string \<Rightarrow> string" where
  "reverse chars = rev chars"

text \<open>
  \<open>Sign\<close>, \<open>IsInt64\<close> and \<open>SetDecimals\<close> call each other: \<open>Sign(-1)\<close> asks
  \<open>IsInt64(0)\<close>, which builds its comparand with \<open>SetDecimals\<close>, which ends in
  \<open>Sign\<close>.  The method \<open>Sign\<close> is \<open>SetSign\<close> here, \<open>Sign\<close> being the field.
\<close>

function SetSign :: "BigFloat \<Rightarrow> int \<Rightarrow> BigFloat"
  and IsInt64 :: "BigFloat \<Rightarrow> int \<Rightarrow> bool"
  and SetDecimals :: "BigFloat \<Rightarrow> int \<Rightarrow> BigFloat" where
  "SetSign f s =
    (if s = - 1 then
       (let f1 = f\<lparr>Sign := 1\<rparr> in f1\<lparr>Sign := (if IsInt64 f1 0 then 1 else s)\<rparr>)
     else f\<lparr>Sign := s\<rparr>)"
| "IsInt64 f n =
    (let nFloat = SetDecimals (SetInt64 BigFloat0 n) (Decimals f) in
     Sign f = Sign nFloat \<and> Decimals f = Decimals nFloat \<and> Len f = Len nFloat \<and>
     Norm f = Norm nFloat)"
| "SetDecimals f n =
    (if n = Decimals f then SetSign f (Sign f)
     else
       (let norm' = (if n > Decimals f then Norm f @ fill (n - Decimals f) (CHR ''0'')
                     else take (nat (Len f - Decimals f + n)) (Norm f));
            f' = f\<lparr>Norm := norm', Decimals := n, Len := int (length norm')\<rparr>
        in SetSign f' (Sign f')))"
  by pat_completeness auto
termination
proof (relation "measure (\<lambda>x. case x of
          Inl (f, s) \<Rightarrow> (if s = - 1 then 3 else 0)
        | Inr (Inl (f, n)) \<Rightarrow> (if Sign (SetInt64 BigFloat0 n) = - 1 then 5 else 2)
        | Inr (Inr (f, n)) \<Rightarrow> (if Sign f = - 1 then 4 else (1::nat)))", goal_cases)
  case (2 f s f1)
  have "Sign (SetInt64 BigFloat0 0) = 1" by code_simp
  then show ?case using 2 by simp
qed auto

declare SetSign.simps [simp del] IsInt64.simps [simp del] SetDecimals.simps [simp del]

definition Copy :: "BigFloat \<Rightarrow> BigFloat" where
  "Copy f = f"

definition GetSign :: "BigFloat \<Rightarrow> int" where
  "GetSign f = Sign f"

definition Neg :: "BigFloat \<Rightarrow> BigFloat" where
  "Neg f = SetSign f (Sign f * - 1)"

definition Abs :: "BigFloat \<Rightarrow> BigFloat" where
  "Abs f = SetSign f 1"

definition Frac :: "BigFloat \<Rightarrow> BigFloat" where
  "Frac f =
    (if Len f - Decimals f > 0 then
       (let norm' = CHR ''0'' # drop (nat (Len f - Decimals f)) (Norm f);
            f' = f\<lparr>Norm := norm', Len := int (length norm')\<rparr>
        in if list_ex (\<lambda>c. c \<noteq> CHR ''0'') (take (nat (Len f')) norm') then f' else f'\<lparr>Sign := 1\<rparr>)
     else f)"

text \<open>
  \<open>Trunc\<close>: the option \<open>WithDecimalPlaces\<close> is \<open>Some n\<close>; a negative one panics.  The
  loop writes \<open>0\<close> at the positions \<open>Len - Decimals\<close> to \<open>Len - 1\<close> and panics when one
  of them is not an index of the buffer.
\<close>

definition Trunc :: "BigFloat \<Rightarrow> int option \<Rightarrow> error + BigFloat" where
  "Trunc f opt =
    (let decimalPlaces = (case opt of None \<Rightarrow> Decimals f | Some n \<Rightarrow> n) in
     if decimalPlaces < 0 then Inl NegativeDecimalPlaces
     else if Decimals f > 0 \<and> (Len f - Decimals f < 0 \<or> Len f > int (length (Norm f)))
       then Inl IndexOutOfRange
     else
       (let k = nat (Len f - Decimals f);
            norm' = take k (Norm f) @ map (\<lambda>c. CHR ''0'') (drop k (take (nat (Len f)) (Norm f)))
                    @ drop (nat (Len f)) (Norm f)
        in Inr (SetDecimals (f\<lparr>Norm := norm'\<rparr>) decimalPlaces)))"

definition Mul10 :: "BigFloat \<Rightarrow> int \<Rightarrow> BigFloat" where
  "Mul10 f n =
    (if Decimals f - n > 0 then f\<lparr>Decimals := Decimals f - n\<rparr>
     else
       (let zeroes = fill (n - Decimals f) (CHR ''0'');
            f1 = f\<lparr>Norm := Norm f @ zeroes, Len := Len f + (n - Decimals f), Decimals := 0\<rparr>;
            iTrim = int (length (takeWhile (\<lambda>c. c = CHR ''0'')
                       (take (nat (Len f1 - Decimals f1)) (Norm f1))))
        in if iTrim > 0 then f1\<lparr>Norm := drop (nat iTrim) (Norm f1), Len := Len f1 - iTrim\<rparr>
           else f1))"

definition Div10 :: "BigFloat \<Rightarrow> int \<Rightarrow> BigFloat" where
  "Div10 f n =
    (let f1 = (if Decimals f + n \<ge> Len f then
                 (let zeroes = fill (n - (Len f - Decimals f) + 1) (CHR ''0'')
                  in f\<lparr>Norm := zeroes @ Norm f, Len := Len f + int (length zeroes)\<rparr>)
               else f)
     in f1\<lparr>Decimals := Decimals f1 + n\<rparr>)"

definition Pow10 :: "BigFloat \<Rightarrow> int \<Rightarrow> BigFloat" where
  "Pow10 f n =
    (if n < 0 then Div10 (SetInt64 f 1) (- n)
     else
       (let zeroes = fill (n + 1) (char_of (48::nat));
            zeroes' = (case zeroes of [] \<Rightarrow> [] | z # zs \<Rightarrow> char_of ((of_char z :: nat) + 1) # zs)
        in \<lparr>Norm = zeroes', Sign = 1, Decimals = 0, Len = int (length zeroes')\<rparr>))"

section \<open>Alignment, addition, subtraction, comparison\<close>

text \<open>Go's integer division truncates towards zero.\<close>

definition quo :: "int \<Rightarrow> int \<Rightarrow> int" where
  "quo a b = sgn a * sgn b * (\<bar>a\<bar> div \<bar>b\<bar>)"

definition rem :: "int \<Rightarrow> int \<Rightarrow> int" where
  "rem a b = a - b * quo a b"

definition divmod10 :: "int \<Rightarrow> int \<times> int" where
  "divmod10 a = (quo a 10, rem a 10)"

record correction =
  c_offset :: int
  c_reverse :: int

record alignment =
  MaxIntLen :: int
  MaxDecLen :: int
  al_Len :: int
  corrections :: "correction list"

definition read :: "int \<Rightarrow> BigFloat \<Rightarrow> correction \<Rightarrow> int \<Rightarrow> int" where
  "read pos f c byteFix =
    (let cPos = Len f - pos - c_offset c - 1 in
     if cPos \<ge> 0 \<and> cPos < Len f then of_char (Norm f ! nat cPos) + byteFix else 0)"

definition reverse_read :: "int \<Rightarrow> BigFloat \<Rightarrow> correction \<Rightarrow> int \<Rightarrow> int" where
  "reverse_read pos f c byteFix =
    (let cPos = pos - c_reverse c in
     if cPos \<ge> 0 \<and> cPos < Len f then of_char (Norm f ! nat cPos) + byteFix else 0)"

definition multiRead ::
  "int \<Rightarrow> BigFloat list \<Rightarrow> alignment \<Rightarrow> int \<Rightarrow> (int \<Rightarrow> BigFloat \<Rightarrow> correction \<Rightarrow> int \<Rightarrow> int) \<Rightarrow> int list" where
  "multiRead pos n a byteFix readFn = map (\<lambda>(f, c). readFn pos f c byteFix) (zip n (corrections a))"

definition align :: "BigFloat list \<Rightarrow> alignment" where
  "align args =
    (let maxIntLen0 = (case args of [] \<Rightarrow> 0 | x # xs \<Rightarrow> Len x - Decimals x);
         maxDecLen0 = (case args of [] \<Rightarrow> 0 | x # xs \<Rightarrow> Decimals x);
         maxIntLen = foldl (\<lambda>m x. if Len x - Decimals x > m then Len x - Decimals x else m)
                       maxIntLen0 (tl args);
         maxDecLen = foldl (\<lambda>m x. if Decimals x > m then Decimals x else m) maxDecLen0 (tl args);
         c = map (\<lambda>arg. \<lparr>c_offset = Decimals arg - maxDecLen,
                          c_reverse = maxIntLen - (Len arg - Decimals arg)\<rparr>) args
     in \<lparr>MaxIntLen = maxIntLen, MaxDecLen = maxDecLen, al_Len = maxIntLen + maxDecLen,
          corrections = c\<rparr>)"

text \<open>
  The trimming loop of \<open>add\<close>, \<open>sub\<close> and \<open>Mul\<close>: the zero bytes at the front of the
  buffer are dropped, all but the last byte before the \<open>dec\<close> fractional ones.
\<close>

definition trim_leading :: "string \<Rightarrow> int \<Rightarrow> string" where
  "trim_leading totalBuf dec =
    (if int (length totalBuf) > dec then
       drop (length (takeWhile (\<lambda>c. c = char_of (0::nat))
               (take (nat (int (length totalBuf) - dec - 1)) totalBuf))) totalBuf
     else totalBuf)"

text \<open>The unexported \<open>add\<close>, for operands of one sign.\<close>

definition add :: "BigFloat \<Rightarrow> BigFloat \<Rightarrow> BigFloat" where
  "add a b =
    (let n = [a, b];
         al = align n;
         (overflow, buf) = foldl (\<lambda>(overflow, totalBuf) p.
              (let v = multiRead (int p) n al (- 48) read;
                   sum = overflow + (v ! 0 + v ! 1);
                   (overflow', r) = divmod10 sum
               in (overflow', totalBuf @ [char_of r]))) (0, []) [0 ..< nat (al_Len al)];
         totalBuf = reverse (buf @ [char_of overflow]);
         totalBuf = trim_leading totalBuf (MaxDecLen al);
         totalBuf = add_bytes totalBuf 48
     in \<lparr>Norm = totalBuf, Sign = Sign a, Decimals = MaxDecLen al, Len = int (length totalBuf)\<rparr>)"

text \<open>The unexported \<open>sub\<close>; its error result is always \<open>nil\<close>.\<close>

definition sub :: "BigFloat \<Rightarrow> BigFloat \<Rightarrow> BigFloat" where
  "sub a b =
    (let n = [a, b];
         al = align n;
         (overflow, buf) = foldl (\<lambda>(overflow, totalBuf) i.
              (let v = multiRead (int i) n al (- 48) read;
                   v0 = v ! 0 - overflow;
                   overflow' = (if v0 < v ! 1 then 1 else 0);
                   v0' = (if v0 < v ! 1 then v0 + 10 else v0);
                   diff = v0' - v ! 1
               in (overflow', totalBuf @ [char_of diff]))) (0::int, []) [0 ..< nat (al_Len al)];
         totalBuf = reverse buf;
         totalBuf = trim_leading totalBuf (MaxDecLen al);
         totalBuf = add_bytes totalBuf 48
     in \<lparr>Norm = totalBuf, Sign = 1, Decimals = MaxDecLen al, Len = int (length totalBuf)\<rparr>)"

fun compare_loop :: "nat list \<Rightarrow> BigFloat list \<Rightarrow> alignment \<Rightarrow> int \<Rightarrow> int" where
  "compare_loop [] n al sign = 0"
| "compare_loop (i # is) n al sign =
    (let v = multiRead (int i) n al (- 48) reverse_read in
     if v ! 0 < v ! 1 then - sign
     else if v ! 0 > v ! 1 then sign
     else compare_loop is n al sign)"

definition compare :: "BigFloat \<Rightarrow> BigFloat \<Rightarrow> bool \<Rightarrow> int" where
  "compare f a absolute =
    (if absolute \<or> Sign f = Sign a then
       (let n = [f, a];
            al = align n;
            sign = (if absolute then 1 else Sign f)
        in compare_loop [0 ..< nat (al_Len al)] n al sign)
     else Sign f)"

definition Compare :: "BigFloat \<Rightarrow> BigFloat \<Rightarrow> int" where
  "Compare f a = compare f a False"

definition CompareAbs :: "BigFloat \<Rightarrow> BigFloat \<Rightarrow> int" where
  "CompareAbs f a = compare f a True"

text \<open>\<open>f.Add(a, b)\<close> and \<open>f.Sub(a, b)\<close>: the new value of \<open>f\<close>.\<close>

definition Add :: "BigFloat \<Rightarrow> BigFloat \<Rightarrow> BigFloat \<Rightarrow> BigFloat" where
  "Add f a b =
    (if IsInt64 a 0 then b
     else if IsInt64 b 0 then a
     else if Sign a = Sign b then add a b
     else
       (let cmp = CompareAbs a b in
        if cmp = 0 then SetDecimals (SetInt64 f 0) (max (Decimals a) (Decimals b))
        else
          (let (f1, f2, sign) = (if cmp < 0 then (Copy b, Copy a, Sign b)
                                 else (Copy a, Copy b, Sign a))
           in SetSign (sub (Abs f1) (Abs f2)) sign)))"

definition Sub :: "BigFloat \<Rightarrow> BigFloat \<Rightarrow> BigFloat \<Rightarrow> BigFloat" where
  "Sub f a b =
    (if IsInt64 a 0 then Neg b
     else if IsInt64 b 0 then a
     else if Sign a \<noteq> Sign b then
       (let f1 = Copy a; f2 = Copy b; sign = Sign f1
        in SetSign (add (Abs f1) (Abs f2)) sign)
     else
       (let cmp = CompareAbs a b in
        if cmp = 0 then SetDecimals (SetInt64 f 0) (maxInt (Decimals a) (Decimals b))
        else
          (let (f1, f2, sign) = (if cmp < 0 then (Copy b, Copy a, Sign b * - 1)
                                 else (Copy a, Copy b, Sign a))
           in SetSign (sub (Abs f1) (Abs f2)) sign)))"

section \<open>Multiplication\<close>

record subProduct =
  sp_offset :: int
  sp_product :: "int list"

text \<open>The partial product of \<open>a\<close> by the digit of \<open>b\<close> at index \<open>bd\<close>.\<close>

definition partial_product :: "string \<Rightarrow> BigFloat \<Rightarrow> nat \<Rightarrow> subProduct" where
  "partial_product aStr b bd =
    (let (overflow, cBuf) = foldl (\<lambda>(overflow, cBuf) ad.
            (let total = mul (Norm b ! bd) (aStr ! ad) + overflow;
                 (overflow', r) = divmod10 total
             in (overflow', cBuf @ [r]))) (0, []) (rev [0 ..< length aStr])
     in \<lparr>sp_offset = Len b - int bd - 1,
          sp_product = (if overflow \<noteq> 0 then cBuf @ [overflow] else cBuf)\<rparr>)"

definition Mul :: "BigFloat \<Rightarrow> BigFloat \<Rightarrow> BigFloat \<Rightarrow> BigFloat" where
  "Mul f a b =
    (if IsInt64 a 0 \<or> IsInt64 b 0 then
       SetDecimals (SetInt64 f 0) (maxInt (Decimals a) (Decimals b))
     else if IsInt64 a 1 then b
     else if IsInt64 a (- 1) then Neg b
     else if IsInt64 b 1 then a
     else if IsInt64 b (- 1) then Neg a
     else
       (let aStr = Norm a; bStr = Norm b;
            resultBuf = map (partial_product aStr b)
                          (filter (\<lambda>bd. bStr ! bd \<noteq> CHR ''0'') [0 ..< length bStr]);
            lenP = Len a + Len b;
            (overflow, buf) = foldl (\<lambda>(overflow, totalBuf) pos.
                (let s = foldl (\<lambda>s sp.
                          (let ppos = int pos - sp_offset sp in
                           if ppos \<ge> 0 \<and> ppos < int (length (sp_product sp))
                           then s + sp_product sp ! nat ppos else s)) overflow resultBuf;
                     (overflow', r) = divmod10 s
                 in (overflow', totalBuf @ [char_of r]))) (0, []) [0 ..< nat lenP];
            totalBuf = buf @ [char_of overflow];
            newDecimals = Decimals a + Decimals b;
            totalBuf = reverse totalBuf;
            totalBuf = trim_leading totalBuf newDecimals;
            iTrim = (if newDecimals > 0
                     then int (length (takeWhile (\<lambda>c. c = char_of (0::nat))
                                 (take (nat newDecimals) (rev totalBuf))))
                     else 0);
            totalBuf = take (nat (int (length totalBuf) - iTrim)) totalBuf;
            newDecimals = newDecimals - iTrim;
            totalBuf = add_bytes totalBuf 48
        in \<lparr>Norm = totalBuf, Sign = Sign a * Sign b, Decimals = newDecimals,
             Len = int (length totalBuf)\<rparr>))"

text \<open>\<open>strings.TrimRight(nStr, "0")\<close>.\<close>

definition TrimRight0 :: "string \<Rightarrow> string" where
  "TrimRight0 s = rev (dropWhile (\<lambda>c. c = CHR ''0'') (rev s))"

definition MulInt64 :: "BigFloat \<Rightarrow> int \<Rightarrow> BigFloat" where
  "MulInt64 f n =
    (if n = 0 then
       f\<lparr>Sign := 1, Norm := fill (Decimals f + 1) (CHR ''0''), Len := Decimals f + 1\<rparr>
     else if n = 1 then f
     else if n = - 1 then (if \<not> IsInt64 f 0 then f\<lparr>Sign := Sign f * - 1\<rparr> else f)
     else
       (let nStr = FormatInt n;
            trimmedString = TrimRight0 nStr;
            numZeroes = int (length nStr) - int (length trimmedString)
        in if numZeroes > 0 \<and> (trimmedString = ''1'' \<or> trimmedString = ''-1'') then
             Mul10 (if trimmedString = ''-1'' then f\<lparr>Sign := Sign f * - 1\<rparr> else f) numZeroes
           else Mul f f (SetInt64 BigFloat0 n)))"

section \<open>Rounding\<close>

text \<open>
  \<open>Round\<close> panics on a negative \<open>n\<close>, and the read \<open>Norm[pos]\<close> panics when \<open>pos\<close>
  is not an index of the buffer.
\<close>

definition Round :: "BigFloat \<Rightarrow> int \<Rightarrow> error + BigFloat" where
  "Round f n =
    (if n < 0 then Inl InvalidDecimalNumber
     else if n < Decimals f then
       (let pos = Len f - Decimals f + n in
        if pos < 0 \<or> pos \<ge> int (length (Norm f)) then Inl IndexOutOfRange
        else
          (let d = Norm f ! nat pos;
               f1 = f\<lparr>Len := Len f - (Decimals f - n), Decimals := n, Norm := take (nat pos) (Norm f)\<rparr>;
               f2 = (if (of_char d :: nat) \<ge> of_char (CHR ''5'') then
                       (let c = Div10 (SetInt64 BigFloat0 1) n;
                            c = SetSign c (GetSign f1)
                        in Add f1 f1 c)
                     else f1)
           in Inr (SetSign f2 (Sign f2))))
     else Inr f)"

section \<open>Formatting\<close>

datatype fmt_option = WithRepeatingOptions string string | ForceSign bool | OtherOption

text \<open>\<open>StringWith\<close>: the last \<open>ForceSign\<close> option decides; the default is \<open>false\<close>.\<close>

definition StringWith :: "BigFloat \<Rightarrow> bool list \<Rightarrow> string" where
  "StringWith f options =
    (let forceSign = foldl (\<lambda>so opt. opt) False options in
     (if Sign f = - 1 then ''-'' else if forceSign \<and> \<not> IsInt64 f 0 then ''+'' else [])
     @ take (nat (Len f - Decimals f)) (Norm f)
     @ (if Decimals f > 0 then ''.'' @ drop (nat (Len f - Decimals f)) (Norm f) else []))"

definition String :: "BigFloat \<Rightarrow> string" where
  "String f = StringWith f [False]"

text \<open>
  \<open>StringF\<close> panics on an option of another type, and when the slice bound
  \<open>len(result) - RepeatingDecimals\<close> is negative.
\<close>

datatype fmt_error = WrongInputType | SliceOutOfRange

fun string_options :: "fmt_option list \<Rightarrow> (string \<times> string) \<Rightarrow> bool list \<Rightarrow>
    fmt_error + ((string \<times> string) \<times> bool list)" where
  "string_options [] ro strOptions = Inr (ro, strOptions)"
| "string_options (WithRepeatingOptions s e # os) ro strOptions = string_options os (s, e) strOptions"
| "string_options (ForceSign b # os) ro strOptions = string_options os ro (strOptions @ [b])"
| "string_options (OtherOption # os) ro strOptions = Inl WrongInputType"

definition StringF :: "BigFloat \<Rightarrow> int \<Rightarrow> fmt_option list \<Rightarrow> fmt_error + string" where
  "StringF f RepeatingDecimals options =
    (case string_options options (''('', '')'') [] of
       Inl e \<Rightarrow> Inl e
     | Inr ((indicatorStart, indicatorEnd), strOptions) \<Rightarrow>
        (let result = StringWith f strOptions in
         if RepeatingDecimals > 0 then
           (if int (length result) - RepeatingDecimals < 0 then Inl SliceOutOfRange
            else Inr (take (nat (int (length result) - RepeatingDecimals)) result @ indicatorStart
                      @ drop (nat (int (length result) - RepeatingDecimals)) result @ indicatorEnd))
         else Inr result))"

section \<open>Division\<close>

datatype DivOption = WithDivDecimalPlaces int | WithDivMaxDecimalPlaces int

record divOptionsType =
  decimalPlaces :: int
  maxDecimalPlaces :: int

fun apply_DivOption :: "divOptionsType \<Rightarrow> DivOption \<Rightarrow> divOptionsType" where
  "apply_DivOption ro (WithDivDecimalPlaces n) = ro\<lparr>decimalPlaces := n\<rparr>"
| "apply_DivOption ro (WithDivMaxDecimalPlaces n) = ro\<lparr>maxDecimalPlaces := n\<rparr>"

text \<open>
  \<open>strconv.Atoi\<close> with its error dropped: an optional sign and decimal digits give
  the value, cut off at the 64-bit range; anything else gives 0.
\<close>

definition Atoi :: "string \<Rightarrow> int" where
  "Atoi s =
    (let (neg, ds) = (case s of [] \<Rightarrow> (False, [])
                       | c # cs \<Rightarrow> if c = CHR ''-'' then (True, cs)
                                   else if c = CHR ''+'' then (False, cs) else (False, s))
     in if ds = [] \<or> \<not> list_all IsDigit ds then 0
        else if neg then max (- dec_val ds) (- (2 ^ 63))
        else min (dec_val ds) (2 ^ 63 - 1))"


text \<open>
  What stays fixed while the loop of \<open>divmod\<close> runs, and what it changes.
  \<open>d_result\<close> holds the quotient digits as the bytes 0 to 9.
\<close>

record divenv =
  e_aBuf :: string
  e_bCopy :: BigFloat
  e_cmpLen :: int
  e_divPart2Int :: int
  e_decimalsGoal :: int
  e_maxDecimalPlaces :: int

record divstate =
  d_i :: int
  d_divPart :: string
  d_bDecimals :: bool
  d_remIndxMap :: "(string \<times> int) list"
  d_repDecimalsInd :: int
  d_decimals :: int
  d_lastRemainder :: BigFloat
  d_remainder :: BigFloat
  d_remShared :: bool
  d_result :: string

datatype loop_exit = Break divstate | Continue divstate | Failed error

text \<open>The head of an iteration: the next digit, and whether the dividend is used up.\<close>

definition next_digit :: "divenv \<Rightarrow> divstate \<Rightarrow> char" where
  "next_digit e s =
    (if d_i s \<ge> int (length (e_aBuf e)) then CHR ''0'' else e_aBuf e ! nat (d_i s))"

definition next_bDecimals :: "divenv \<Rightarrow> divstate \<Rightarrow> bool" where
  "next_bDecimals e s = (if d_i s \<ge> int (length (e_aBuf e)) then True else d_bDecimals s)"

text \<open>
  The bookkeeping between the exit tests and the quotient digit.
  \<open>lastRemainder\<close> shares the array of \<open>divPart\<close>, so the write
  \<open>divPart[0] = digit\<close> changes it too; \<open>append\<close> does not.  Once a quotient digit
  has been computed, \<open>divPart\<close> is the buffer of the out-parameter \<open>remainder\<close>
  (\<open>d_remShared\<close>), and the same write changes \<open>remainder\<close> as well.
\<close>

definition advance :: "divstate \<Rightarrow> char \<Rightarrow> divstate" where
  "advance s digit =
    (let divPart = d_divPart s in
     s\<lparr>d_remIndxMap := (if d_bDecimals s then (divPart, d_decimals s) # d_remIndxMap s
                         else d_remIndxMap s),
       d_decimals := (if d_bDecimals s then d_decimals s + 1 else d_decimals s),
       d_lastRemainder := \<lparr>Norm = (if divPart = ''0'' then [digit] else divPart), Sign = 1,
                            Decimals = 0, Len = int (length divPart)\<rparr>,
       d_remainder := (if divPart = ''0'' \<and> d_remShared s
                       then (d_remainder s)\<lparr>Norm := [digit]\<rparr> else d_remainder s),
       d_divPart := (if divPart = ''0'' then [digit] else divPart @ [digit]),
       d_i := d_i s + 1\<rparr>)"

text \<open>The guess of the quotient digit from the leading digits, a byte.\<close>

definition guess_digit :: "divenv \<Rightarrow> string \<Rightarrow> error + int" where
  "guess_digit e divPart =
    (if int (length divPart) < Len (e_bCopy e) then Inr 0
     else if e_divPart2Int e = 0 then Inl IntegerDivideByZero
     else Inr (of_char (char_of (quo
            (Atoi (take (nat (int (length divPart) - (Len (e_bCopy e) - e_cmpLen e))) divPart))
            (e_divPart2Int e)) :: char)))"

text \<open>
  The block under \<open>if divInt > 0\<close>: the product, the correction of the guess, the
  subtraction.  The result is the digit, \<open>remainder\<close> and the new \<open>divPart\<close>.
\<close>

definition fix_digit :: "BigFloat \<Rightarrow> string \<Rightarrow> int \<Rightarrow> int \<times> BigFloat \<times> string" where
  "fix_digit bCopy divPart divInt =
    (let fProduct = Copy bCopy;
         fProduct = (if divInt > 1 then MulInt64 fProduct divInt else fProduct);
         remainder = \<lparr>Norm = divPart, Sign = 1, Decimals = 0, Len = int (length divPart)\<rparr>;
         fix = (Compare fProduct remainder = 1);
         divInt = (if fix then of_char (char_of (divInt - 1) :: char) else divInt);
         fProduct = (if fix then Sub fProduct fProduct bCopy else fProduct);
         remainder = Sub remainder remainder fProduct
     in (divInt, remainder, Norm remainder))"

text \<open>The tail of an iteration: the digit is appended and the cap is tested.\<close>

definition emit :: "divenv \<Rightarrow> divstate \<Rightarrow> int \<Rightarrow> loop_exit" where
  "emit e s divInt =
    (if divInt > 0 \<or> length (d_result s) > 0 \<or> d_bDecimals s then
       (let result = (if d_bDecimals s \<and> length (d_result s) = 0 then [char_of (0::nat)]
                      else d_result s) @ [char_of divInt];
            s = s\<lparr>d_result := result\<rparr>
        in if d_decimals s \<ge> e_maxDecimalPlaces e then Break s else Continue s)
     else Continue s)"

text \<open>The quotient digit of an iteration, with \<open>divPart\<close> and \<open>remainder\<close> updated.\<close>

definition quotient_digit :: "divenv \<Rightarrow> divstate \<Rightarrow> error + (divstate \<times> int)" where
  "quotient_digit e s =
    (case guess_digit e (d_divPart s) of
       Inl err \<Rightarrow> Inl err
     | Inr divInt \<Rightarrow>
         if divInt > 0 then
           (let (divInt, remainder, divPart) = fix_digit (e_bCopy e) (d_divPart s) divInt
            in Inr (s\<lparr>d_divPart := divPart, d_remainder := remainder, d_remShared := True\<rparr>,
                    divInt))
         else Inr (s, divInt))"

definition div_step :: "divenv \<Rightarrow> divstate \<Rightarrow> loop_exit" where
  "div_step e s =
    (let digit = next_digit e s;
         s = s\<lparr>d_bDecimals := next_bDecimals e s\<rparr>
     in
     if (d_bDecimals s \<and> d_divPart s = ''0'') \<or>
        (e_decimalsGoal e > 0 \<and> d_decimals s = e_decimalsGoal e) then Break s
     else if d_bDecimals s \<and> map_of (d_remIndxMap s) (d_divPart s) \<noteq> None then
       Break (s\<lparr>d_repDecimalsInd := the (map_of (d_remIndxMap s) (d_divPart s))\<rparr>)
     else
       (case quotient_digit e (advance s digit) of
          Inl err \<Rightarrow> Failed err
        | Inr (s, divInt) \<Rightarrow> emit e s divInt))"

function div_loop :: "divenv \<Rightarrow> divstate \<Rightarrow> error + divstate" where
  "div_loop e s =
    (case div_step e s of
       Break s' \<Rightarrow> Inr s'
     | Failed err \<Rightarrow> Inl err
     | Continue s' \<Rightarrow> div_loop e s')"
  by pat_completeness auto
termination
proof (relation "measures [\<lambda>(e, s). nat (int (length (e_aBuf e)) - d_i s),
                            \<lambda>(e, s). nat (e_maxDecimalPlaces e - d_decimals s)]", goal_cases)
  case 1
  show ?case by simp
next
  case (2 e s s')
  define s1 where "s1 = advance (s\<lparr>d_bDecimals := next_bDecimals e s\<rparr>) (next_digit e s)"
  have i1: "d_i s1 = d_i s + 1"
    by (simp add: s1_def advance_def Let_def)
  have b1: "d_bDecimals s1 = next_bDecimals e s"
    by (simp add: s1_def advance_def Let_def)
  have d1: "d_decimals s1 = (if next_bDecimals e s then d_decimals s + 1 else d_decimals s)"
    by (simp add: s1_def advance_def Let_def)
  have em: "\<And>t k. emit e t k = Continue s' \<Longrightarrow>
      d_i s' = d_i t \<and> d_decimals s' = d_decimals t \<and>
      (if d_bDecimals t then d_decimals t < e_maxDecimalPlaces e else True)"
    by (auto simp: emit_def Let_def split: if_splits)
  have qd: "\<And>t k. quotient_digit e s1 = Inr (t, k) \<Longrightarrow>
      d_i t = d_i s1 \<and> d_decimals t = d_decimals s1 \<and> d_bDecimals t = d_bDecimals s1"
    by (auto simp: quotient_digit_def Let_def split: if_splits sum.splits prod.splits)
  from 2 have "div_step e s = Continue s'" by simp
  then obtain t k where t: "emit e t k = Continue s'" "quotient_digit e s1 = Inr (t, k)"
    unfolding div_step_def Let_def s1_def [symmetric]
    by (auto split: if_splits sum.splits prod.splits)
  from em [OF t(1)] qd [OF t(2)] i1 b1 d1
  have "d_i s' = d_i s + 1"
    and "next_bDecimals e s \<Longrightarrow> d_decimals s' = d_decimals s + 1 \<and> d_decimals s' < e_maxDecimalPlaces e"
    by (auto split: if_splits)
  then show ?case
    by (cases "d_i s \<ge> int (length (e_aBuf e))") (auto simp: next_bDecimals_def)
qed

declare div_loop.simps [simp del]

text \<open>The default options, changed by the options given.\<close>

definition div_options :: "DivOption list \<Rightarrow> divOptionsType" where
  "div_options options =
    foldl apply_DivOption \<lparr>decimalPlaces = - 1, maxDecimalPlaces = 10000\<rparr> options"

text \<open>
  \<open>divmod\<close>, in the order of the source: the copies of the operands, without sign
  and shifted to integers; the setting of the loop; after the loop, the padding up to
  the target decimals, the rounding or truncation, and the remainder.
\<close>

definition shifted :: "BigFloat \<Rightarrow> int \<Rightarrow> BigFloat" where
  "shifted x sh = (let c = Abs (Copy x) in if sh > 0 then Mul10 c sh else c)"

text \<open>
  The options are values of Go's \<open>int\<close>, 64 bits wide: \<open>decimalsGoal++\<close> wraps around
  at the largest of them.
\<close>

definition wrap_int :: "int \<Rightarrow> int" where
  "wrap_int x = (x + 2 ^ 63) mod 2 ^ 64 - 2 ^ 63"

definition div_env :: "BigFloat \<Rightarrow> BigFloat \<Rightarrow> divOptionsType \<Rightarrow> divenv" where
  "div_env aCopy bCopy ro =
    (let maxLen = (if 5 > Len bCopy then Len bCopy else 5);
         cmpStr = take (nat maxLen) (Norm bCopy)
     in \<lparr>e_aBuf = Norm aCopy, e_bCopy = bCopy, e_cmpLen = int (length cmpStr),
          e_divPart2Int = Atoi cmpStr,
          e_decimalsGoal = (if decimalPlaces ro \<ge> 0 then wrap_int (decimalPlaces ro + 1)
                            else decimalPlaces ro),
          e_maxDecimalPlaces = maxDecimalPlaces ro\<rparr>)"

definition div_init :: "BigFloat \<Rightarrow> BigFloat \<Rightarrow> BigFloat \<Rightarrow> divstate" where
  "div_init aCopy bCopy remainder0 =
    (let aBuf = Norm aCopy;
         initLen = (if Len bCopy - 1 > int (length aBuf) then int (length aBuf)
                    else Len bCopy - 1)
     in \<lparr>d_i = Len bCopy - 1, d_divPart = take (nat initLen) aBuf, d_bDecimals = False,
          d_remIndxMap = [], d_repDecimalsInd = - 1, d_decimals = 0,
          d_lastRemainder = SetInt64 BigFloat0 0, d_remainder = SetInt64 remainder0 0,
          d_remShared = False, d_result = []\<rparr>)"

text \<open>The digits, their number of decimals and the number of repeating decimals.\<close>

definition div_pad :: "int \<Rightarrow> string \<Rightarrow> int \<Rightarrow> int \<Rightarrow> error + (string \<times> int \<times> int)" where
  "div_pad decimalsGoal result decimals repeatDecimals =
    (if decimalsGoal \<ge> 0 \<and> decimalsGoal > decimals then
       (let repeatStr = (if repeatDecimals > 0
                         then drop (nat (int (length result) - repeatDecimals)) result
                         else ''0'')
        in case Repeat repeatStr (quo (decimalsGoal - decimals) (int (length repeatStr)) + 1) of
             Inl err \<Rightarrow> Inl err
           | Inr trailStr \<Rightarrow>
               Inr (result @ take (nat (decimalsGoal - decimals)) trailStr, decimalsGoal,
                    (if repeatDecimals > 0 then 0 else repeatDecimals)))
     else Inr (result, decimals, repeatDecimals))"

definition div_round :: "BigFloat \<Rightarrow> bool \<Rightarrow> int \<Rightarrow> error + BigFloat" where
  "div_round f bTrunc dp =
    (if bTrunc then Trunc f (Some 0)
     else (case Round f dp of
             Inl err \<Rightarrow> Inl err
           | Inr f' \<Rightarrow> Inr (SetDecimals f' dp)))"

definition div_finish ::
  "BigFloat \<Rightarrow> BigFloat \<Rightarrow> bool \<Rightarrow> divOptionsType \<Rightarrow> divenv \<Rightarrow> divstate \<Rightarrow>
     error + (BigFloat \<times> BigFloat \<times> int)" where
  "div_finish a b bTrunc ro e s =
    (let result = add_bytes (d_result s) 48;
         decimals = d_decimals s;
         repeatDecimals = (if d_repDecimalsInd s \<ge> 0 then decimals - d_repDecimalsInd s else 0)
     in
     case div_pad (e_decimalsGoal e) result decimals repeatDecimals of
       Inl err \<Rightarrow> Inl err
     | Inr (result, decimals, repeatDecimals) \<Rightarrow>
        (let f = \<lparr>Norm = result, Sign = Sign a * Sign b, Decimals = decimals,
                  Len = int (length result)\<rparr>
         in
         if decimalPlaces ro \<ge> 0 \<and> decimalPlaces ro < Decimals f then
           (case div_round f bTrunc (decimalPlaces ro) of
              Inl err \<Rightarrow> Inl err
            | Inr f' \<Rightarrow>
                Inr (f', Div10 (d_lastRemainder s) (Decimals a + Decimals b), repeatDecimals))
         else Inr (f, d_remainder s, repeatDecimals)))"

text \<open>
  The results of \<open>divmod\<close> are the new value of the destination \<open>f\<close>, the new value
  of the out-parameter \<open>remainder\<close>, and the number of repeating decimals.  On the
  error the source returns before it has written to either.  The destination, the
  operands and the remainder are taken to be objects of their own, with buffers of
  their own: the model passes values.
\<close>

definition divmod ::
  "BigFloat \<Rightarrow> BigFloat \<Rightarrow> BigFloat \<Rightarrow> BigFloat \<Rightarrow> bool \<Rightarrow> DivOption list \<Rightarrow>
     error + (BigFloat \<times> BigFloat \<times> int)" where
  "divmod f a b remainder0 bTrunc options =
    (let ro = div_options options in
     if IsInt64 a 0 then
       (let f = SetInt64 f 0;
            f = (if decimalPlaces ro \<ge> 0 then SetDecimals f (decimalPlaces ro) else f)
        in Inr (f, remainder0, 0))
     else if IsInt64 b 0 then Inl DivisionByZero
     else
       (let aCopy = shifted a (Decimals a + Decimals b);
            bCopy = shifted b (Decimals a + Decimals b)
        in
        if IsInt64 bCopy 1 then
          (let f = SetSign aCopy (Sign a * Sign b);
               f = (if decimalPlaces ro \<ge> 0 then SetDecimals f (decimalPlaces ro) else f)
           in Inr (f, remainder0, 0))
        else
          (let e = div_env aCopy bCopy ro in
           case div_loop e (div_init aCopy bCopy remainder0) of
             Inl err \<Rightarrow> Inl err
           | Inr s \<Rightarrow> div_finish a b bTrunc ro e s)))"

text \<open>
  \<open>Div\<close> gives \<open>divmod\<close> a fresh remainder and returns the destination and the number
  of repeating decimals; \<open>DivMod\<close> returns the destination and the remainder.  Both
  results are paired with the value the destination \<open>f\<close> holds afterwards.
\<close>

definition Div :: "BigFloat \<Rightarrow> BigFloat \<Rightarrow> BigFloat \<Rightarrow> DivOption list \<Rightarrow> BigFloat \<times> (error + int)" where
  "Div f a b options =
    (case divmod f a b BigFloat0 False options of
       Inl err \<Rightarrow> (f, Inl err)
     | Inr (f', r, repeatDecimals) \<Rightarrow> (f', Inr repeatDecimals))"

definition DivMod :: "BigFloat \<Rightarrow> BigFloat \<Rightarrow> BigFloat \<Rightarrow> BigFloat \<times> (error + BigFloat)" where
  "DivMod f a b =
    (case divmod f a b BigFloat0 True [WithDivDecimalPlaces 0] of
       Inl err \<Rightarrow> (f, Inl err)
     | Inr (f', r, repeatDecimals) \<Rightarrow> (f', Inr r))"

section \<open>The steps of the test suite\<close>

text \<open>\<open>TestRound\<close>: parse, round, format.\<close>

definition RoundString :: "string \<Rightarrow> int \<Rightarrow> error + string" where
  "RoundString s n =
    (case SetString BigFloat0 s of
       Inl e \<Rightarrow> Inl e
     | Inr f \<Rightarrow> (case Round f n of Inl e \<Rightarrow> Inl e | Inr r \<Rightarrow> Inr (String r)))"

section \<open>The invariants of the data model\<close>

text \<open>
  I1 to I4 as the specification states them, over digit buffers of decimal digits.
  I5 (a bare integer has no decimal marker) is a property of the formatted string.
\<close>

definition all_digits :: "BigFloat \<Rightarrow> bool" where
  "all_digits f = list_all IsDigit (Norm f)"

definition I1 :: "BigFloat \<Rightarrow> bool" where
  "I1 f = (Len f = int (length (Norm f)) \<and> Len f \<ge> 1)"

definition I2 :: "BigFloat \<Rightarrow> bool" where
  "I2 f = (0 \<le> Decimals f \<and> Decimals f \<le> Len f)"

definition I3 :: "BigFloat \<Rightarrow> bool" where
  "I3 f = (if list_all (\<lambda>c. c = CHR ''0'') (Norm f) then Sign f = 1
           else (Sign f = 1 \<or> Sign f = - 1))"

definition I4 :: "BigFloat \<Rightarrow> bool" where
  "I4 f = (case take (nat (Len f - Decimals f)) (Norm f) of
             [] \<Rightarrow> True
           | c # cs \<Rightarrow> if c = CHR ''0'' then cs = [] else True)"

definition invariant :: "BigFloat \<Rightarrow> bool" where
  "invariant f = (all_digits f \<and> I1 f \<and> I2 f \<and> I3 f \<and> I4 f)"

text \<open>
  Every constructor and operation of the source keeps at least one digit before the
  fractional ones; \<open>wf\<close> adds that to the invariants.
\<close>

definition wf :: "BigFloat \<Rightarrow> bool" where
  "wf f = (invariant f \<and> Decimals f < Len f)"

text \<open>The magnitude is zero when every digit is \<open>0\<close>.\<close>

definition is_zero :: "BigFloat \<Rightarrow> bool" where
  "is_zero f = list_all (\<lambda>c. c = CHR ''0'') (Norm f)"

text \<open>The part of a formatted string after its decimal point.\<close>

definition fraction_digits :: "string \<Rightarrow> string" where
  "fraction_digits str =
    (if CHR ''.'' \<in> set str then tl (dropWhile (\<lambda>c. c \<noteq> CHR ''.'') str) else [])"

text \<open>The variables of the analyzer that decide its result.\<close>

definition scanned :: "scan \<Rightarrow> string \<times> int \<times> int \<times> int \<times> bool \<times> bool \<times> bool \<times> string" where
  "scanned s = (normBuf s, a_Len s, a_Decimals s, a_Sign s, nonZeroDigitFound s, digitFound s,
                eFound s, eBuf s)"

text \<open>
  What holds of the counters of the loop of \<open>divmod\<close> at the head of every iteration,
  and what holds of them when the loop is left.
\<close>

definition counters_ok :: "divenv \<Rightarrow> divstate \<Rightarrow> bool" where
  "counters_ok e s =
    (0 \<le> d_decimals s \<and> d_decimals s \<le> int (length (d_result s)) \<and>
     list_all (\<lambda>(k, v). 0 \<le> v \<and> v < d_decimals s) (d_remIndxMap s) \<and>
     d_repDecimalsInd s = - 1 \<and>
     (if e_decimalsGoal e > 0 then d_decimals s \<le> e_decimalsGoal e else True))"

definition exit_ok :: "divenv \<Rightarrow> divstate \<Rightarrow> bool" where
  "exit_ok e s =
    (0 \<le> d_decimals s \<and> d_decimals s \<le> int (length (d_result s)) \<and>
     (d_repDecimalsInd s = - 1 \<or>
      (0 \<le> d_repDecimalsInd s \<and> d_repDecimalsInd s < d_decimals s \<and>
       (if e_decimalsGoal e > 0 then d_decimals s < e_decimalsGoal e else True))))"

text \<open>
  The integer that a digit buffer denotes, and the values \<open>divmod\<close> hands to its loop:
  integers of sign \<open>+1\<close> without decimals and without leading zeros.
\<close>

definition val :: "BigFloat \<Rightarrow> int" where
  "val f = dec_val (Norm f)"

definition natural :: "BigFloat \<Rightarrow> bool" where
  "natural f =
    (Sign f = 1 \<and> Decimals f = 0 \<and> Len f = int (length (Norm f)) \<and>
     list_all IsDigit (Norm f) \<and> Norm f \<noteq> [] \<and> (hd (Norm f) \<noteq> CHR ''0'' \<or> Norm f = ''0''))"

text \<open>The four ways out of the loop: the tests at the head of an iteration and the cap.\<close>

definition exit_reason :: "divenv \<Rightarrow> divstate \<Rightarrow> bool" where
  "exit_reason e s =
    ((d_bDecimals s \<and> d_divPart s = ''0'') \<or>
     (e_decimalsGoal e > 0 \<and> d_decimals s = e_decimalsGoal e) \<or>
     d_repDecimalsInd s \<ge> 0 \<or>
     d_decimals s \<ge> e_maxDecimalPlaces e)"

section \<open>The numbers behind the buffers\<close>

text \<open>Digit \<open>p\<close> of a buffer, counted from the right, and numbers as lists of digits,
  lowest first.\<close>

definition dig :: "string \<Rightarrow> nat \<Rightarrow> int" where
  "dig s p = (if p < length s then digit_val (rev s ! p) else 0)"

fun le_num :: "int list \<Rightarrow> int" where
  "le_num [] = 0"
| "le_num (d # ds) = d + 10 * le_num ds"

definition digits_le :: "string \<Rightarrow> nat \<Rightarrow> int list" where
  "digits_le s L = map (dig s) [0 ..< L]"

definition small :: "int list \<Rightarrow> bool" where
  "small ds = list_all (\<lambda>d. 0 \<le> d \<and> d \<le> 9) ds"

text \<open>From digits, lowest first, to the buffer: reverse, trim, shift to ASCII.\<close>

definition to_buffer :: "int list \<Rightarrow> string" where
  "to_buffer ds = add_bytes (trim_leading (reverse (map char_of ds)) 0) 48"

text \<open>A digit as its ASCII byte, and a list of digits without its leading zeros
  (the last digit stays).\<close>

definition ascii :: "int \<Rightarrow> char" where
  "ascii d = char_of ((of_char (char_of d :: char) :: int) + 48)"

definition trim :: "int list \<Rightarrow> int list" where
  "trim xs = drop (length (takeWhile (\<lambda>d. d = 0) (butlast xs))) xs"

text \<open>The loop of \<open>sub\<close> on the digits of \<open>a\<close> and \<open>b\<close>.\<close>

definition sub_step :: "BigFloat \<Rightarrow> BigFloat \<Rightarrow> int \<times> string \<Rightarrow> nat \<Rightarrow> int \<times> string" where
  "sub_step a b = (\<lambda>(overflow, totalBuf) i.
              (let v = multiRead (int i) [a, b] (align [a, b]) (- 48) read;
                   v0 = v ! 0 - overflow;
                   overflow' = (if v0 < v ! 1 then 1 else 0);
                   v0' = (if v0 < v ! 1 then v0 + 10 else v0);
                   diff = v0' - v ! 1
               in (overflow', totalBuf @ [char_of diff])))"

text \<open>Comparison: the digits are read from the highest place down.\<close>

fun lexcmp :: "int list \<Rightarrow> int list \<Rightarrow> int \<Rightarrow> int" where
  "lexcmp (x # xs) (y # ys) s = (if x < y then - s else if x > y then s else lexcmp xs ys s)"
| "lexcmp _ _ s = 0"

text \<open>The bodies of the loops of \<open>Mul\<close>: one digit of a partial product, and one column
  of the sum when there is a single partial product at offset 0.\<close>

definition pp_step :: "char \<Rightarrow> string \<Rightarrow> int \<times> int list \<Rightarrow> nat \<Rightarrow> int \<times> int list" where
  "pp_step c aStr = (\<lambda>(overflow, cBuf) ad.
            (let total = mul c (aStr ! ad) + overflow;
                 (overflow', r) = divmod10 total
             in (overflow', cBuf @ [r])))"

definition col_step :: "int list \<Rightarrow> int \<times> string \<Rightarrow> nat \<Rightarrow> int \<times> string" where
  "col_step p = (\<lambda>(overflow, totalBuf) pos.
      (let s = (if pos < length p then overflow + p ! pos else overflow);
           (overflow', r) = divmod10 s
       in (overflow', totalBuf @ [char_of r])))"

text \<open>A buffer of digits that is empty, or has no leading zero, or is \<open>0\<close>.\<close>

definition canonical :: "string \<Rightarrow> bool" where
  "canonical s = (list_all IsDigit s \<and> (s = [] \<or> hd s \<noteq> CHR ''0'' \<or> s = ''0''))"

text \<open>What \<open>div_env\<close> sets up for a divisor that is a positive integer.\<close>

definition env_ok :: "divenv \<Rightarrow> bool" where
  "env_ok e = (natural (e_bCopy e) \<and> 1 \<le> val (e_bCopy e) \<and>
     e_cmpLen e = min 5 (Len (e_bCopy e)) \<and>
     e_divPart2Int e = Atoi (take (nat (e_cmpLen e)) (Norm (e_bCopy e))) \<and>
     list_all IsDigit (e_aBuf e))"

text \<open>The state at the head of the iteration reached after \<open>n\<close> full iterations of the
  loop, when none of them left the loop.\<close>

fun div_iter :: "nat \<Rightarrow> divenv \<Rightarrow> divstate \<Rightarrow> divstate option" where
  "div_iter 0 e s = Some s"
| "div_iter (Suc n) e s =
    (case div_step e s of Continue s' \<Rightarrow> div_iter n e s' | Break s' \<Rightarrow> None | Failed err \<Rightarrow> None)"

text \<open>The invariant of the loop: the running remainder is below the divisor, and the
  quotient digits are the bytes 0 to 9.\<close>

definition step_inv :: "divenv \<Rightarrow> divstate \<Rightarrow> bool" where
  "step_inv e s =
    (canonical (d_divPart s) \<and> dec_val (d_divPart s) < val (e_bCopy e) \<and> 0 \<le> d_i s \<and>
     list_all (\<lambda>c. (of_char c :: int) \<le> 9) (d_result s))"

text \<open>The number that the quotient bytes of the loop denote, and the invariant of the
  iterations that still read digits of the dividend.\<close>

definition quot_val :: "string \<Rightarrow> int" where
  "quot_val r = dec_val (add_bytes r 48)"

definition int_phase :: "divenv \<Rightarrow> divstate \<Rightarrow> bool" where
  "int_phase e s =
    (step_inv e s \<and> \<not> d_bDecimals s \<and> d_decimals s = 0 \<and> d_remIndxMap s = [] \<and>
     d_repDecimalsInd s = - 1 \<and>
     (d_result s = [] \<or> 0 < quot_val (d_result s)) \<and>
     dec_val (take (nat (d_i s)) (e_aBuf e)) =
       quot_val (d_result s) * val (e_bCopy e) + dec_val (d_divPart s))"

section \<open>Properties\<close>

subsection \<open>Basic facts\<close>

lemma SetInt64_0: "SetInt64 f 0 = \<lparr>Norm = ''0'', Sign = 1, Decimals = 0, Len = 1\<rparr>"
proof -
  have "Analyze (FormatInt 0) = Inr \<lparr>Norm = ''0'', Sign = 1, Decimals = 0, Len = 1\<rparr>"
    by code_simp
  then show ?thesis by (simp add: SetInt64_def SetString_def)
qed

lemma SetInt64_1: "SetInt64 f 1 = \<lparr>Norm = ''1'', Sign = 1, Decimals = 0, Len = 1\<rparr>"
proof -
  have "Analyze (FormatInt 1) = Inr \<lparr>Norm = ''1'', Sign = 1, Decimals = 0, Len = 1\<rparr>"
    by code_simp
  then show ?thesis by (simp add: SetInt64_def SetString_def)
qed

lemma SetSign_fields [simp]:
  "Norm (SetSign f s) = Norm f" "Decimals (SetSign f s) = Decimals f" "Len (SetSign f s) = Len f"
  by (simp_all add: SetSign.simps Let_def)

lemma SetDecimals_Decimals [simp]: "Decimals (SetDecimals f n) = n"
  by (simp add: SetDecimals.simps Let_def)

lemma align_MaxDecLen [simp]: "MaxDecLen (align [a, b]) = max (Decimals a) (Decimals b)"
  by (simp add: align_def Let_def max_def)

lemma add_Decimals [simp]: "Decimals (add a b) = max (Decimals a) (Decimals b)"
  by (simp add: add_def Let_def split: prod.splits)

lemma sub_Decimals [simp]: "Decimals (sub a b) = max (Decimals a) (Decimals b)"
  by (simp add: sub_def Let_def split: prod.splits)

lemma Add_Decimals:
  "Decimals a = n \<Longrightarrow> Decimals b = n \<Longrightarrow> Decimals (Add f a b) = n"
  by (simp add: Add_def Let_def Copy_def Abs_def split: prod.splits)

lemma Div10_Decimals [simp]: "Decimals (Div10 f n) = Decimals f + n"
  by (simp add: Div10_def Let_def)

subsection \<open>Exponent folding\<close>

text \<open>
  C1.  The literal \<open>1.5e1\<close> has one decimal and the exponent 1, so \<open>decimals\<close> drops to
  0 and does not underflow; the analyzer still appends a zero and answers the digits
  \<open>150\<close> with no decimals, the value 150 and not 15.  On \<open>1.234e1\<close>, where two
  decimals stay, the number of zeros to append is \<open>-1\<close> and \<open>bytes.Repeat\<close> panics.
\<close>

theorem Analyze_exponent_keeps_decimals:
  "Analyze ''1.5e1'' = Inr \<lparr>Norm = ''150'', Sign = 1, Decimals = 0, Len = 3\<rparr> \<and>
   Analyze ''1.234e1'' = Inl NegativeRepeatCount"
  by code_simp

subsection \<open>Mutators and the invariants\<close>

text \<open>
  C5.  The value 0 satisfies the invariants, and \<open>Mul10\<close> by one place strips every
  digit of it: the buffer is empty and I1 fails.  On 0.05 the same call leaves the
  integer part \<open>00\<close>, against I4.
\<close>

theorem Mul10_breaks_invariants:
  "invariant New \<and> Mul10 New 1 = \<lparr>Norm = [], Sign = 1, Decimals = 0, Len = 0\<rparr> \<and>
   \<not> I1 (Mul10 New 1) \<and>
   invariant \<lparr>Norm = ''005'', Sign = 1, Decimals = 2, Len = 3\<rparr> \<and>
   Mul10 \<lparr>Norm = ''005'', Sign = 1, Decimals = 2, Len = 3\<rparr> 1 =
     \<lparr>Norm = ''005'', Sign = 1, Decimals = 1, Len = 3\<rparr> \<and>
   \<not> I4 (Mul10 \<lparr>Norm = ''005'', Sign = 1, Decimals = 2, Len = 3\<rparr> 1)"
  by code_simp

subsection \<open>Rounding\<close>

text \<open>
  C6.  Rounding \<open>1.25\<close> to one decimal place gives the value with digits \<open>13\<close> and one
  decimal, formatted \<open>1.3\<close> and not \<open>1.30\<close>; rounding \<open>-1.55555\<close> to one decimal
  place gives \<open>-1.6\<close> and not \<open>-1.60000\<close>.  \<open>Round\<close> cuts the buffer at the rounding
  position and does not put zeros in the place of the dropped digits.
\<close>

theorem Round_1_25_not_1_30:
  "SetString BigFloat0 ''1.25'' = Inr \<lparr>Norm = ''125'', Sign = 1, Decimals = 2, Len = 3\<rparr> \<and>
   Round \<lparr>Norm = ''125'', Sign = 1, Decimals = 2, Len = 3\<rparr> 1 =
     Inr \<lparr>Norm = ''13'', Sign = 1, Decimals = 1, Len = 2\<rparr> \<and>
   RoundString ''1.25'' 1 = Inr ''1.3'' \<and> RoundString ''1.25'' 1 \<noteq> Inr ''1.30'' \<and>
   RoundString ''-1.55555'' 1 = Inr ''-1.6'' \<and> RoundString ''-1.55555'' 1 \<noteq> Inr ''-1.60000''"
  by code_simp

subsection \<open>A division with a repetend\<close>

text \<open>
  C7.  \<open>100\<close> divided by \<open>-0.7\<close> with the default options gives the digits
  \<open>142857142\<close> with sign \<open>-1\<close> and six decimals, the value \<open>-142.857142\<close>, and six
  repeating decimals; \<open>StringF\<close> with the default markers renders \<open>-142.(857142)\<close>.
\<close>

theorem Div_100_by_minus_0_7:
  "Analyze ''100'' = Inr \<lparr>Norm = ''100'', Sign = 1, Decimals = 0, Len = 3\<rparr> \<and>
   Analyze ''-0.7'' = Inr \<lparr>Norm = ''07'', Sign = - 1, Decimals = 1, Len = 2\<rparr> \<and>
   Div New \<lparr>Norm = ''100'', Sign = 1, Decimals = 0, Len = 3\<rparr>
       \<lparr>Norm = ''07'', Sign = - 1, Decimals = 1, Len = 2\<rparr> [WithDivDecimalPlaces (- 1)] =
     (\<lparr>Norm = ''142857142'', Sign = - 1, Decimals = 6, Len = 9\<rparr>, Inr 6) \<and>
   String \<lparr>Norm = ''142857142'', Sign = - 1, Decimals = 6, Len = 9\<rparr> = ''-142.857142'' \<and>
   StringF \<lparr>Norm = ''142857142'', Sign = - 1, Decimals = 6, Len = 9\<rparr> 6 [] =
     Inr ''-142.(857142)''"
  by code_simp

subsection \<open>Division by zero\<close>
















lemma SetSign_not_neg: "s \<noteq> - 1 \<Longrightarrow> SetSign f s = f\<lparr>Sign := s\<rparr>"
  by (simp add: SetSign.simps)

lemma SetDecimals_zero:
  "0 \<le> n \<Longrightarrow> SetDecimals \<lparr>Norm = ''0'', Sign = 1, Decimals = 0, Len = 1\<rparr> n =
     \<lparr>Norm = replicate (nat n + 1) (CHR ''0''), Sign = 1, Decimals = n, Len = n + 1\<rparr>"
  by (simp add: SetDecimals.simps SetSign_not_neg fill_def Let_def)

lemma IsInt64_0:
  "0 \<le> Decimals f \<Longrightarrow>
   IsInt64 f 0 \<longleftrightarrow> Sign f = 1 \<and> Len f = Decimals f + 1 \<and>
                 Norm f = replicate (nat (Decimals f) + 1) (CHR ''0'')"
  by (auto simp: IsInt64.simps SetInt64_0 SetDecimals_zero Let_def)

lemma all_eq_replicate: "list_all (\<lambda>c. c = x) s \<Longrightarrow> s = replicate (length s) x"
  by (induction s) auto

lemma wf_IsInt64_0:
  assumes "wf f"
  shows "IsInt64 f 0 \<longleftrightarrow> is_zero f"
proof
  assume "IsInt64 f 0"
  with assms have "Norm f = replicate (nat (Decimals f) + 1) (CHR ''0'')"
    by (simp add: IsInt64_0 wf_def invariant_def I2_def)
  then have "set (Norm f) \<subseteq> {CHR ''0''}" by (metis set_replicate_conv_if empty_subsetI subset_refl)
  then show "is_zero f"
    unfolding is_zero_def list_all_iff by auto
next
  assume z: "is_zero f"
  from assms have len: "Len f = int (length (Norm f))" and d: "0 \<le> Decimals f" "Decimals f < Len f"
    and i3: "I3 f" and i4: "I4 f"
    by (simp_all add: wf_def invariant_def I1_def I2_def)
  from z i3 have sg: "Sign f = 1" by (simp add: I3_def is_zero_def)
  from z have rep: "Norm f = replicate (length (Norm f)) (CHR ''0'')"
    unfolding is_zero_def by (rule all_eq_replicate)
  define k where "k = nat (Len f - Decimals f)"
  have k: "0 < k" "k \<le> length (Norm f)" using len d by (simp_all add: k_def)
  have "take k (replicate (length (Norm f)) (CHR ''0'')) = replicate k (CHR ''0'')"
    using k by (simp add: min_def)
  with rep have "take k (Norm f) = replicate k (CHR ''0'')" by simp
  with i4 k have "k = 1"
    unfolding I4_def k_def [symmetric] by (cases k) (auto split: if_splits)
  then have l1: "Len f = Decimals f + 1" using d by (simp add: k_def)
  with len d have "length (Norm f) = nat (Decimals f) + 1" by linarith
  with rep have "Norm f = replicate (nat (Decimals f) + 1) (CHR ''0'')" by simp
  with l1 sg d show "IsInt64 f 0"
    by (simp add: IsInt64_0)
qed






subsection \<open>Formatting and parsing back\<close>

lemma IsDigit_chars:
  assumes "IsDigit c"
  shows "visible c" "c \<noteq> CHR ''+''" "c \<noteq> CHR ''-''" "c \<noteq> CHR ''.''" "c \<noteq> CHR ''E''"
    "c \<noteq> CHR ''e''" "c \<noteq> CHR '' ''"
  using assms by (auto simp: IsDigit_def visible_def)

lemma scan_rune_digit:
  assumes "IsDigit c" "\<not> eFound s"
  shows "scan_rune i c s =
    (if decimalPointFound s \<or> c \<noteq> CHR ''0'' \<or> (digitFound s \<and> nonZeroDigitFound s) then
       Inr (s\<lparr>normBuf := normBuf s @ [c], a_Len := a_Len s + 1,
              a_Decimals := (if decimalPointFound s then a_Decimals s + 1 else a_Decimals s),
              nonZeroDigitFound := (if c \<noteq> CHR ''0'' then True else nonZeroDigitFound s),
              digitFound := True\<rparr>)
     else Inr (s\<lparr>digitFound := True\<rparr>))"
  using assms IsDigit_chars [OF assms(1)] by (simp add: scan_rune_def)

lemma scan_loop_append:
  "scan_loop i (xs @ ys) s =
    (case scan_loop i xs s of Inl e \<Rightarrow> Inl e | Inr s' \<Rightarrow> scan_loop (i + length xs) ys s')"
  by (induction xs arbitrary: i s) (auto split: sum.splits)

lemma scan_digits:
  assumes "list_all IsDigit ds" "\<not> eFound s"
    and "decimalPointFound s \<or> (digitFound s \<and> nonZeroDigitFound s)"
  shows "scan_loop i ds s =
    Inr (s\<lparr>normBuf := normBuf s @ ds, a_Len := a_Len s + int (length ds),
           a_Decimals := (if decimalPointFound s then a_Decimals s + int (length ds)
                          else a_Decimals s),
           nonZeroDigitFound := (nonZeroDigitFound s \<or> list_ex (\<lambda>c. c \<noteq> CHR ''0'') ds),
           digitFound := (digitFound s \<or> ds \<noteq> [])\<rparr>)"
  using assms
proof (induction ds arbitrary: i s)
  case Nil
  then show ?case by simp
next
  case (Cons c ds)
  let ?s1 = "s\<lparr>normBuf := normBuf s @ [c], a_Len := a_Len s + 1,
              a_Decimals := (if decimalPointFound s then a_Decimals s + 1 else a_Decimals s),
              nonZeroDigitFound := (if c \<noteq> CHR ''0'' then True else nonZeroDigitFound s),
              digitFound := True\<rparr>"
  from Cons.prems have c: "IsDigit c" and ds: "list_all IsDigit ds" by simp_all
  have step: "scan_rune i c s = Inr ?s1"
    using scan_rune_digit [OF c Cons.prems(2)] Cons.prems(3) by auto
  have "scan_loop (i + 1) ds ?s1 = Inr (?s1\<lparr>normBuf := normBuf ?s1 @ ds,
           a_Len := a_Len ?s1 + int (length ds),
           a_Decimals := (if decimalPointFound ?s1 then a_Decimals ?s1 + int (length ds)
                          else a_Decimals ?s1),
           nonZeroDigitFound := (nonZeroDigitFound ?s1 \<or> list_ex (\<lambda>c. c \<noteq> CHR ''0'') ds),
           digitFound := (digitFound ?s1 \<or> ds \<noteq> [])\<rparr>)"
    using Cons.prems by (intro Cons.IH [OF ds]) auto
  with step show ?case by (auto simp: add.assoc)
qed


lemma scan_rune_dot:
  assumes "\<not> decimalPointFound s" "\<not> eFound s"
  shows "scan_rune i (CHR ''.'') s =
    Inr (if \<not> nonZeroDigitFound s
         then s\<lparr>decimalPointFound := True, normBuf := normBuf s @ [CHR ''0''], a_Len := a_Len s + 1\<rparr>
         else s\<lparr>decimalPointFound := True\<rparr>)"
  using assms by (simp add: scan_rune_def visible_def)

lemma scan_number:
  assumes s0: "\<not> decimalPointFound s" "\<not> eFound s" "\<not> digitFound s" "\<not> nonZeroDigitFound s"
      "normBuf s = []" "a_Len s = 0" "a_Decimals s = 0"
    and ip: "ip = ''0'' \<or> (ip \<noteq> [] \<and> hd ip \<noteq> CHR ''0'')" "list_all IsDigit ip"
    and fp: "list_all IsDigit fp"
  shows "\<exists>s'. scan_loop i (ip @ (if fp \<noteq> [] then CHR ''.'' # fp else [])) s = Inr s' \<and>
     scanned s' = ((if ip = ''0'' \<and> fp = [] then [] else ip @ fp),
                   (if ip = ''0'' \<and> fp = [] then 0 else int (length (ip @ fp))),
                   int (length fp), a_Sign s, list_ex (\<lambda>c. c \<noteq> CHR ''0'') (ip @ fp), True,
                   False, eBuf s)"
proof -
  have dot: "\<And>j t. \<not> decimalPointFound t \<Longrightarrow> \<not> eFound t \<Longrightarrow> fp \<noteq> [] \<Longrightarrow>
      scan_loop j (CHR ''.'' # fp) t =
        scan_loop (j + 1) fp (if \<not> nonZeroDigitFound t
         then t\<lparr>decimalPointFound := True, normBuf := normBuf t @ [CHR ''0''], a_Len := a_Len t + 1\<rparr>
         else t\<lparr>decimalPointFound := True\<rparr>)"
    by (simp add: scan_rune_dot)
  from ip(1) show ?thesis
  proof
    assume z: "ip = ''0''"
    have r0: "scan_rune i (CHR ''0'') s = Inr (s\<lparr>digitFound := True\<rparr>)"
      using s0 by (subst scan_rune_digit) (simp_all add: IsDigit_def)
    show ?thesis
    proof (cases "fp = []")
      case True
      with z r0 s0 show ?thesis by (simp add: scanned_def)
    next
      case False
      let ?t = "s\<lparr>digitFound := True, decimalPointFound := True, normBuf := [CHR ''0''], a_Len := 1\<rparr>"
      have "scan_loop i (ip @ CHR ''.'' # fp) s = scan_loop (i + 1 + 1) fp ?t"
        using z r0 s0 False by (simp add: scan_rune_dot)
      also have "\<dots> = Inr (?t\<lparr>normBuf := normBuf ?t @ fp, a_Len := a_Len ?t + int (length fp),
           a_Decimals := (if decimalPointFound ?t then a_Decimals ?t + int (length fp)
                          else a_Decimals ?t),
           nonZeroDigitFound := (nonZeroDigitFound ?t \<or> list_ex (\<lambda>c. c \<noteq> CHR ''0'') fp),
           digitFound := (digitFound ?t \<or> fp \<noteq> [])\<rparr>)"
        using s0 fp by (intro scan_digits) simp_all
      finally show ?thesis using False z s0 by (simp add: scanned_def)
    qed
  next
    assume nz: "ip \<noteq> [] \<and> hd ip \<noteq> CHR ''0''"
    then obtain c cs where ipc: "ip = c # cs" and c0: "c \<noteq> CHR ''0''" by (cases ip) auto
    from ip(2) ipc have c: "IsDigit c" and cs: "list_all IsDigit cs" by simp_all
    let ?t = "s\<lparr>normBuf := [c], a_Len := 1, nonZeroDigitFound := True, digitFound := True\<rparr>"
    have r1: "scan_rune i c s = Inr ?t"
      using s0 c0 by (subst scan_rune_digit [OF c]) simp_all
    let ?u = "?t\<lparr>normBuf := normBuf ?t @ cs, a_Len := a_Len ?t + int (length cs),
           a_Decimals := (if decimalPointFound ?t then a_Decimals ?t + int (length cs)
                          else a_Decimals ?t),
           nonZeroDigitFound := (nonZeroDigitFound ?t \<or> list_ex (\<lambda>c. c \<noteq> CHR ''0'') cs),
           digitFound := (digitFound ?t \<or> cs \<noteq> [])\<rparr>"
    have r2: "scan_loop (i + 1) cs ?t = Inr ?u"
      using s0 cs by (intro scan_digits) simp_all
    show ?thesis
    proof (cases "fp = []")
      case True
      with ipc r1 r2 s0 c0 show ?thesis by (simp add: scanned_def)
    next
      case False
      let ?v = "?u\<lparr>decimalPointFound := True\<rparr>"
      have "scan_loop i (ip @ CHR ''.'' # fp) s = scan_loop (i + 1 + length cs + 1) fp ?v"
        using ipc r1 r2 s0 False by (simp add: scan_loop_append scan_rune_dot)
      also have "\<dots> = Inr (?v\<lparr>normBuf := normBuf ?v @ fp, a_Len := a_Len ?v + int (length fp),
           a_Decimals := (if decimalPointFound ?v then a_Decimals ?v + int (length fp)
                          else a_Decimals ?v),
           nonZeroDigitFound := (nonZeroDigitFound ?v \<or> list_ex (\<lambda>c. c \<noteq> CHR ''0'') fp),
           digitFound := (digitFound ?v \<or> fp \<noteq> [])\<rparr>)"
        using s0 fp by (intro scan_digits) simp_all
      finally show ?thesis using False ipc s0 c0 by (simp add: scanned_def)
    qed
  qed
qed


lemma scan_sign:
  "scan_loop 0 ''-'' scan_init = Inr (scan_init\<lparr>signFound := True, a_Sign := - 1\<rparr>)"
  "scan_loop 0 ''+'' scan_init = Inr (scan_init\<lparr>signFound := True\<rparr>)"
  by (simp_all add: scan_rune_def visible_def scan_init_def)

lemma scan_prefix:
  assumes "pre = ''-'' \<or> pre = ''+'' \<or> pre = []"
  shows "\<exists>s0. scan_loop 0 pre scan_init = Inr s0 \<and>
      \<not> decimalPointFound s0 \<and> \<not> eFound s0 \<and> \<not> digitFound s0 \<and> \<not> nonZeroDigitFound s0 \<and>
      normBuf s0 = [] \<and> a_Len s0 = 0 \<and> a_Decimals s0 = 0 \<and> eBuf s0 = [] \<and>
      a_Sign s0 = (if pre = ''-'' then - 1 else 1)"
  using assms by (auto simp: scan_rune_def visible_def scan_init_def)

lemma IsDigit_not_dot: "list_all IsDigit ds \<Longrightarrow> CHR ''.'' \<notin> set ds"
  by (induction ds) (auto simp: IsDigit_def)

lemma wf_parts:
  assumes "wf x"
  defines "k \<equiv> nat (Len x - Decimals x)"
  shows "take k (Norm x) = ''0'' \<or> (take k (Norm x) \<noteq> [] \<and> hd (take k (Norm x)) \<noteq> CHR ''0'')"
    and "list_all IsDigit (take k (Norm x))" and "list_all IsDigit (drop k (Norm x))"
    and "int (length (drop k (Norm x))) = Decimals x"
    and "int (length (Norm x)) = Len x"
proof -
  from assms have len: "Len x = int (length (Norm x))" and d: "0 \<le> Decimals x" "Decimals x < Len x"
    and i4: "I4 x" and dg: "list_all IsDigit (Norm x)"
    by (simp_all add: wf_def invariant_def I1_def I2_def all_digits_def)
  have k: "0 < k" "k \<le> length (Norm x)" using len d by (simp_all add: k_def)
  then have ne: "take k (Norm x) \<noteq> []" by auto
  from i4 ne show "take k (Norm x) = ''0'' \<or> (take k (Norm x) \<noteq> [] \<and> hd (take k (Norm x)) \<noteq> CHR ''0'')"
    unfolding I4_def k_def [symmetric] by (cases "take k (Norm x)") (auto split: if_splits)
  from dg have "list_all IsDigit (take k (Norm x) @ drop k (Norm x))" by simp
  then show "list_all IsDigit (take k (Norm x))" "list_all IsDigit (drop k (Norm x))"
    unfolding list_all_append by simp_all
  show "int (length (drop k (Norm x))) = Decimals x" using len d by (simp add: k_def)
  show "int (length (Norm x)) = Len x" using len by simp
qed

lemma StringWith_shape:
  "\<exists>pre. (pre = ''-'' \<or> pre = ''+'' \<or> pre = []) \<and> (pre = ''-'' \<longleftrightarrow> Sign x = - 1) \<and>
     StringWith x opts = pre @ take (nat (Len x - Decimals x)) (Norm x) @
       (if Decimals x > 0 then CHR ''.'' # drop (nat (Len x - Decimals x)) (Norm x) else [])"
  by (auto simp: StringWith_def Let_def)

text \<open>
  C8, amended.  For every value that satisfies the invariants and has at least one
  digit before its decimals, parsing the formatted string succeeds and gives the
  value back, digits, sign and decimals; the formatted string has exactly
  \<open>decimals\<close> digits after the decimal point, and no point when \<open>decimals\<close> is 0.
\<close>

theorem parse_format_roundtrip:
  assumes "wf x"
  shows "Analyze (StringWith x opts) = Inr x \<and>
         int (length (fraction_digits (StringWith x opts))) = Decimals x \<and>
         list_all IsDigit (fraction_digits (StringWith x opts)) \<and>
         (CHR ''.'' \<in> set (StringWith x opts) \<longleftrightarrow> Decimals x > 0)"
proof -
  define k where "k = nat (Len x - Decimals x)"
  define ip where "ip = take k (Norm x)"
  define fp where "fp = drop k (Norm x)"
  note parts = wf_parts [OF assms, folded k_def, folded ip_def fp_def]
  have norm: "Norm x = ip @ fp" by (simp add: ip_def fp_def)
  have fpd: "fp \<noteq> [] \<longleftrightarrow> Decimals x > 0"
  proof -
    have "fp \<noteq> [] \<longleftrightarrow> 0 < length fp" by simp
    also have "\<dots> \<longleftrightarrow> 0 < int (length fp)" by linarith
    finally show ?thesis using parts(4) by simp
  qed
  from StringWith_shape [of x opts] obtain pre where
    pre: "pre = ''-'' \<or> pre = ''+'' \<or> pre = []" "pre = ''-'' \<longleftrightarrow> Sign x = - 1"
    and str: "StringWith x opts = pre @ ip @ (if fp \<noteq> [] then CHR ''.'' # fp else [])"
    unfolding k_def [symmetric] ip_def [symmetric] fp_def [symmetric] fpd by blast
  \<comment> \<open>the shape of the string\<close>
  have nodot: "CHR ''.'' \<notin> set (pre @ ip)"
    using pre(1) IsDigit_not_dot [OF parts(2)] by auto
  have dots: "CHR ''.'' \<in> set (StringWith x opts) \<longleftrightarrow> Decimals x > 0"
    using nodot IsDigit_not_dot [OF parts(3)] fpd by (auto simp: str)
  have fd: "fraction_digits (StringWith x opts) = fp"
  proof (cases "fp = []")
    case True
    with dots fpd show ?thesis by (simp add: fraction_digits_def)
  next
    case False
    have "dropWhile (\<lambda>c. c \<noteq> CHR ''.'') ((pre @ ip) @ CHR ''.'' # fp) = CHR ''.'' # fp"
      using nodot by (subst dropWhile_append2) auto
    with False dots fpd show ?thesis by (simp add: fraction_digits_def str)
  qed
  \<comment> \<open>the scan\<close>
  obtain s0 where s0: "scan_loop 0 pre scan_init = Inr s0"
      "\<not> decimalPointFound s0" "\<not> eFound s0" "\<not> digitFound s0" "\<not> nonZeroDigitFound s0"
      "normBuf s0 = []" "a_Len s0 = 0" "a_Decimals s0 = 0" "eBuf s0 = []"
      "a_Sign s0 = (if pre = ''-'' then - 1 else 1)"
    using scan_prefix [OF pre(1)] by blast
  from scan_number [OF s0(2-8) parts(1) parts(2) parts(3), of "length pre"]
  obtain s' where s': "scan_loop (length pre) (ip @ (if fp \<noteq> [] then CHR ''.'' # fp else [])) s0 = Inr s'"
    and sc: "scanned s' = ((if ip = ''0'' \<and> fp = [] then [] else ip @ fp),
                   (if ip = ''0'' \<and> fp = [] then 0 else int (length (ip @ fp))),
                   int (length fp), a_Sign s0, list_ex (\<lambda>c. c \<noteq> CHR ''0'') (ip @ fp), True,
                   False, eBuf s0)"
    by blast
  have loop: "scan_loop 0 (StringWith x opts) scan_init = Inr s'"
    using s0(1) s' by (simp add: str scan_loop_append)
  from assms have i3: "I3 x" by (simp add: wf_def invariant_def)
  have nz: "list_ex (\<lambda>c. c \<noteq> CHR ''0'') (ip @ fp) \<longleftrightarrow> \<not> list_all (\<lambda>c. c = CHR ''0'') (Norm x)"
    unfolding norm by (simp add: list_ex_iff list_all_iff)
  have sign: "(if \<not> list_ex (\<lambda>c. c \<noteq> CHR ''0'') (ip @ fp) \<and> a_Sign s0 \<noteq> 1 then 1 else a_Sign s0) = Sign x"
    using i3 pre(2) s0(10) unfolding nz I3_def by (auto split: if_splits)
  have "ip \<noteq> []" using parts(1) by auto
  then have "0 < length ip" by simp
  then have lpos: "int (length (ip @ fp)) \<noteq> 0" unfolding length_append by linarith
  from sc have fl: "a_Decimals s' = int (length fp)" "digitFound s'" "\<not> eFound s'"
      "nonZeroDigitFound s' = list_ex (\<lambda>c. c \<noteq> CHR ''0'') (ip @ fp)" "a_Sign s' = a_Sign s0"
    by (simp_all add: scanned_def)
  have sg: "(if \<not> nonZeroDigitFound s' \<and> a_Sign s' \<noteq> 1 then 1 else a_Sign s') = Sign x"
    using sign unfolding fl by simp
  have "Analyze (StringWith x opts) =
      Inr \<lparr>Norm = ip @ fp, Sign = Sign x, Decimals = int (length fp), Len = int (length (ip @ fp))\<rparr>"
  proof (cases "ip = ''0'' \<and> fp = []")
    case True
    with sc have "a_Len s' = 0" "normBuf s' = []" by (simp_all add: scanned_def)
    with True fl(1-3) sg show ?thesis
      unfolding Analyze_def loop by (auto simp: Let_def fold_exponent_def split: if_splits)
  next
    case False
    with sc have "a_Len s' = int (length (ip @ fp))" "normBuf s' = ip @ fp"
      by (auto simp: scanned_def)
    with lpos fl(1-3) sg show ?thesis
      unfolding Analyze_def loop by (auto simp: Let_def fold_exponent_def split: if_splits)
  qed
  also have "\<dots> = Inr x"
    using parts(4) parts(5) norm by simp
  finally show ?thesis using fd parts(3) parts(4) dots by simp
qed

theorem parse_format_roundtrip_witness:
  "wf \<lparr>Norm = ''80001'', Sign = - 1, Decimals = 2, Len = 5\<rparr> \<and>
   StringWith \<lparr>Norm = ''80001'', Sign = - 1, Decimals = 2, Len = 5\<rparr> [] = ''-800.01'' \<and>
   Analyze ''-800.01'' = Inr \<lparr>Norm = ''80001'', Sign = - 1, Decimals = 2, Len = 5\<rparr> \<and>
   fraction_digits ''-800.01'' = ''01''"
proof -
  have w: "wf \<lparr>Norm = ''80001'', Sign = - 1, Decimals = 2, Len = 5\<rparr>" by code_simp
  have s: "StringWith \<lparr>Norm = ''80001'', Sign = - 1, Decimals = 2, Len = 5\<rparr> [] = ''-800.01''"
    by code_simp
  have f: "fraction_digits ''-800.01'' = ''01''" by code_simp
  from parse_format_roundtrip [OF w, of "[]"] w s f show ?thesis by simp
qed

text \<open>
  C8, as the claim states it: the digits \<open>5\<close> with one decimal satisfy I1 to I4
  (I2 allows \<open>decimals = length\<close>) and format as \<open>.5\<close>, which parses to the digits
  \<open>05\<close>, another value.
\<close>

theorem parse_format_no_integer_digit:
  "invariant \<lparr>Norm = ''5'', Sign = 1, Decimals = 1, Len = 1\<rparr> \<and>
   String \<lparr>Norm = ''5'', Sign = 1, Decimals = 1, Len = 1\<rparr> = ''.5'' \<and>
   Analyze (String \<lparr>Norm = ''5'', Sign = 1, Decimals = 1, Len = 1\<rparr>) =
     Inr \<lparr>Norm = ''05'', Sign = 1, Decimals = 1, Len = 2\<rparr> \<and>
   Analyze (String \<lparr>Norm = ''5'', Sign = 1, Decimals = 1, Len = 1\<rparr>) \<noteq>
     Inr \<lparr>Norm = ''5'', Sign = 1, Decimals = 1, Len = 1\<rparr>"
  by code_simp


subsection \<open>The number of repeating decimals\<close>

lemma emit_fields:
  assumes "emit e t k = Continue s' \<or> emit e t k = Break s'"
  shows "d_decimals s' = d_decimals t" "d_remIndxMap s' = d_remIndxMap t"
    "d_repDecimalsInd s' = d_repDecimalsInd t" "d_divPart s' = d_divPart t"
    "d_i s' = d_i t" "d_bDecimals s' = d_bDecimals t" "d_lastRemainder s' = d_lastRemainder t"
    "d_remainder s' = d_remainder t"
    "length (d_result t) \<le> length (d_result s')"
    "d_bDecimals t \<Longrightarrow> length (d_result t) < length (d_result s')"
  using assms by (auto simp: emit_def Let_def split: if_splits)

lemma advance_fields:
  "d_decimals (advance s c) = (if d_bDecimals s then d_decimals s + 1 else d_decimals s)"
  "d_remIndxMap (advance s c) =
     (if d_bDecimals s then (d_divPart s, d_decimals s) # d_remIndxMap s else d_remIndxMap s)"
  "d_repDecimalsInd (advance s c) = d_repDecimalsInd s"
  "d_result (advance s c) = d_result s" "d_bDecimals (advance s c) = d_bDecimals s"
  "d_i (advance s c) = d_i s + 1" "d_remShared (advance s c) = d_remShared s"
  "d_divPart (advance s c) = (if d_divPart s = ''0'' then [c] else d_divPart s @ [c])"
  "d_lastRemainder (advance s c) =
     \<lparr>Norm = (if d_divPart s = ''0'' then [c] else d_divPart s), Sign = 1, Decimals = 0,
      Len = int (length (d_divPart s))\<rparr>"
  by (simp_all add: advance_def Let_def)

lemma quotient_digit_fields:
  assumes "quotient_digit e t0 = Inr (t, k)"
  shows "d_decimals t = d_decimals t0" "d_remIndxMap t = d_remIndxMap t0"
    "d_repDecimalsInd t = d_repDecimalsInd t0" "d_result t = d_result t0"
    "d_bDecimals t = d_bDecimals t0" "d_i t = d_i t0" "d_lastRemainder t = d_lastRemainder t0"
  using assms
  by (auto simp: quotient_digit_def Let_def split: if_splits sum.splits prod.splits)

text \<open>A step either leaves at one of the tests, or goes through \<open>advance\<close> and \<open>emit\<close>.\<close>

lemma div_step_cases:
  defines "s1 \<equiv> \<lambda>e s. s\<lparr>d_bDecimals := next_bDecimals e s\<rparr>"
  shows "(div_step e s = Break (s1 e s) \<and>
           ((d_bDecimals (s1 e s) \<and> d_divPart s = ''0'') \<or>
            (e_decimalsGoal e > 0 \<and> d_decimals s = e_decimalsGoal e))) \<or>
         (\<not> (e_decimalsGoal e > 0 \<and> d_decimals s = e_decimalsGoal e) \<and>
           d_bDecimals (s1 e s) \<and> (\<exists>v. map_of (d_remIndxMap s) (d_divPart s) = Some v \<and>
           div_step e s = Break ((s1 e s)\<lparr>d_repDecimalsInd := v\<rparr>))) \<or>
         (\<not> (e_decimalsGoal e > 0 \<and> d_decimals s = e_decimalsGoal e) \<and>
          \<not> (d_bDecimals (s1 e s) \<and> d_divPart s = ''0'') \<and>
          (\<exists>err. quotient_digit e (advance (s1 e s) (next_digit e s)) = Inl err \<and>
             div_step e s = Failed err)) \<or>
         (\<not> (e_decimalsGoal e > 0 \<and> d_decimals s = e_decimalsGoal e) \<and>
          \<not> (d_bDecimals (s1 e s) \<and> d_divPart s = ''0'') \<and>
          (d_bDecimals (s1 e s) \<longrightarrow> map_of (d_remIndxMap s) (d_divPart s) = None) \<and>
          (\<exists>t k. quotient_digit e (advance (s1 e s) (next_digit e s)) = Inr (t, k) \<and>
             div_step e s = emit e t k))"
  unfolding div_step_def Let_def s1_def
  by (auto split: sum.splits)

lemma div_step_counters:
  assumes "counters_ok e s"
  shows "(div_step e s = Continue s' \<longrightarrow> counters_ok e s') \<and>
         (div_step e s = Break s' \<longrightarrow> exit_ok e s')"
proof -
  define s1 where "s1 = s\<lparr>d_bDecimals := next_bDecimals e s\<rparr>"
  from assms have c: "0 \<le> d_decimals s" "d_decimals s \<le> int (length (d_result s))"
    "list_all (\<lambda>(k, v). 0 \<le> v \<and> v < d_decimals s) (d_remIndxMap s)"
    "d_repDecimalsInd s = - 1" "e_decimalsGoal e > 0 \<Longrightarrow> d_decimals s \<le> e_decimalsGoal e"
    by (auto simp: counters_ok_def split: if_splits)
  from div_step_cases [of e s, folded s1_def]
  consider (tests) "div_step e s = Break s1"
    | (rep) v where "\<not> (e_decimalsGoal e > 0 \<and> d_decimals s = e_decimalsGoal e)"
        "map_of (d_remIndxMap s) (d_divPart s) = Some v"
        "div_step e s = Break (s1\<lparr>d_repDecimalsInd := v\<rparr>)"
    | (fail) err where "div_step e s = Failed err"
    | (digit) t k where "\<not> (e_decimalsGoal e > 0 \<and> d_decimals s = e_decimalsGoal e)"
        "quotient_digit e (advance s1 (next_digit e s)) = Inr (t, k)"
        "div_step e s = emit e t k"
    by blast
  then show ?thesis
  proof cases
    case tests
    with c show ?thesis by (auto simp: exit_ok_def s1_def)
  next
    case (rep v)
    from map_of_SomeD [OF rep(2)] c(3) have "0 \<le> v \<and> v < d_decimals s"
      by (auto simp: list_all_iff)
    with rep c show ?thesis by (auto simp: exit_ok_def s1_def)
  next
    case (fail err)
    then show ?thesis by simp
  next
    case (digit t k)
    note qf = quotient_digit_fields [OF digit(2)]
    have dt: "d_decimals t = (if d_bDecimals s1 then d_decimals s + 1 else d_decimals s)"
      and mt: "d_remIndxMap t = (if d_bDecimals s1 then (d_divPart s, d_decimals s) # d_remIndxMap s
                                 else d_remIndxMap s)"
      and rt: "d_repDecimalsInd t = - 1" "d_result t = d_result s"
        "d_bDecimals t = d_bDecimals s1"
      using qf c(4) by (simp_all add: advance_fields s1_def)
    have lm: "list_all (\<lambda>(k, v). 0 \<le> v \<and> v < d_decimals t) (d_remIndxMap t)"
      using c(1,3) unfolding dt mt by (auto simp: list_all_iff)
    have goal: "e_decimalsGoal e > 0 \<Longrightarrow> d_decimals t \<le> e_decimalsGoal e"
      using c(5) digit(1) unfolding dt by (auto split: if_splits)
    have dpos: "0 \<le> d_decimals t" using c(1) unfolding dt by simp
    have len: "d_decimals t \<le> int (length (d_result t)) + (if d_bDecimals t then 1 else 0)"
      using c(2) unfolding dt rt by simp
    {
      assume em: "emit e t k = Continue s' \<or> emit e t k = Break s'"
      note ef = emit_fields [OF em]
      have "d_decimals s' \<le> int (length (d_result s'))"
        using len ef(1,9,10) by (cases "d_bDecimals t") auto
      with ef lm goal dpos rt
      have "counters_ok e s'" "exit_ok e s'"
        by (auto simp: counters_ok_def exit_ok_def)
    }
    with digit(3) show ?thesis by auto
  qed
qed

lemma div_loop_counters:
  "counters_ok e s \<Longrightarrow> div_loop e s = Inr s' \<Longrightarrow> exit_ok e s'"
proof (induction e s rule: div_loop.induct)
  case (1 e s)
  show ?case
  proof (cases "div_step e s")
    case (Break t)
    with 1 div_step_counters [OF 1(2), of t] show ?thesis
      by (simp add: div_loop.simps [of e s])
  next
    case (Continue t)
    with 1 div_step_counters [OF 1(2), of t] show ?thesis
      by (simp add: div_loop.simps [of e s])
  next
    case (Failed err)
    with 1 show ?thesis by (simp add: div_loop.simps [of e s])
  qed
qed

lemma div_init_counters: "counters_ok e (div_init aCopy bCopy r)"
  by (simp add: counters_ok_def div_init_def Let_def)


lemma wrap_int_id: "- (2 ^ 63) \<le> x \<Longrightarrow> x < 2 ^ 63 \<Longrightarrow> wrap_int x = x"
  by (simp add: wrap_int_def)

lemma div_env_goal:
  "decimalPlaces ro < 2 ^ 63 - 1 \<Longrightarrow>
   e_decimalsGoal (div_env aCopy bCopy ro) =
     (if decimalPlaces ro \<ge> 0 then decimalPlaces ro + 1 else decimalPlaces ro)"
  by (simp add: div_env_def Let_def wrap_int_id)

lemma quo_nonneg: "0 \<le> a \<Longrightarrow> 0 < b \<Longrightarrow> quo a b = a div b"
  by (simp add: quo_def sgn_if)

lemma length_concat_replicate: "length (concat (replicate n xs)) = n * length xs"
  by (induction n) simp_all

lemma Repeat_take:
  assumes "0 \<le> k" "xs \<noteq> []"
  shows "\<exists>t. Repeat xs (quo k (int (length xs)) + 1) = Inr t \<and> int (length (take (nat k) t)) = k"
proof -
  define L where "L = int (length xs)"
  have L: "0 < L" using assms(2) by (simp add: L_def)
  have q: "quo k L = k div L" using assms(1) L by (rule quo_nonneg)
  have nn: "0 \<le> k div L" using assms(1) L by (simp add: pos_imp_zdiv_nonneg_iff)
  have "k = (k div L) * L + k mod L" by simp
  moreover have "k mod L < L" using L by simp
  ultimately have "k < (k div L) * L + L" by linarith
  then have kl: "k < (k div L + 1) * L" by (simp add: algebra_simps)
  have "int (nat (k div L + 1) * length xs) = (k div L + 1) * L"
    using nn by (simp add: L_def)
  with kl assms(1) have "int (nat k) < int (nat (k div L + 1) * length xs)" by simp
  then have "nat k < nat (k div L + 1) * length xs" by linarith
  then have "length (take (nat k) (concat (replicate (nat (k div L + 1)) xs))) = nat k"
    by (simp add: length_concat_replicate)
  with nn assms(1) show ?thesis
    unfolding Repeat_def q L_def [symmetric] by simp
qed

lemma div_pad_cases:
  assumes "0 \<le> r0" "r0 \<le> d" "d \<le> int (length res)"
    and "r0 > 0 \<Longrightarrow> g > 0 \<Longrightarrow> d < g"
    and "div_pad g res d r0 = Inr (res', d', r')"
  shows "0 \<le> r'" "r' \<le> d'" "d' \<le> int (length res')" "g > 0 \<Longrightarrow> r' = 0"
    "g < 0 \<Longrightarrow> res' = res \<and> d' = d"
proof -
  show "g < 0 \<Longrightarrow> res' = res \<and> d' = d"
    using assms(5) by (simp add: div_pad_def)
  show "0 \<le> r'" "r' \<le> d'" "d' \<le> int (length res')" "g > 0 \<Longrightarrow> r' = 0"
  proof -
    have "0 \<le> r' \<and> r' \<le> d' \<and> d' \<le> int (length res') \<and> (g > 0 \<longrightarrow> r' = 0)"
    proof (cases "g \<ge> 0 \<and> g > d")
      case False
      with assms(5) have eq: "res' = res" "d' = d" "r' = r0" by (simp_all add: div_pad_def)
      from False assms(4) have "g > 0 \<Longrightarrow> \<not> r0 > 0" by auto
      with assms(1-3) eq show ?thesis by auto
    next
      case True
      define rs where "rs = (if r0 > 0 then drop (nat (int (length res) - r0)) res else ''0'')"
      have ne: "rs \<noteq> []" using assms(1-3) by (auto simp: rs_def)
      from True have k: "0 \<le> g - d" by simp
      from Repeat_take [OF k ne] obtain t where
        t: "Repeat rs (quo (g - d) (int (length rs)) + 1) = Inr t"
           "int (length (take (nat (g - d)) t)) = g - d" by blast
      from True assms(5) t(1) assms(1) have eq: "res' = res @ take (nat (g - d)) t" "d' = g" "r' = 0"
        unfolding div_pad_def Let_def rs_def [symmetric] by (auto split: if_splits)
      have "int (length res') = int (length res) + (g - d)"
        using t(2) unfolding eq by simp
      with assms(3) True eq show ?thesis by auto
    qed
    then show "0 \<le> r'" "r' \<le> d'" "d' \<le> int (length res')" "g > 0 \<Longrightarrow> r' = 0" by auto
  qed
qed

lemma div_round_Decimals:
  "0 \<le> dp \<Longrightarrow> div_round f t dp = Inr f' \<Longrightarrow> 0 \<le> Decimals f'"
  by (auto simp: div_round_def Trunc_def Let_def split: if_splits sum.splits)

lemma div_finish_repeat:
  assumes ex: "exit_ok e s"
    and g: "e_decimalsGoal e = (if decimalPlaces ro \<ge> 0 then decimalPlaces ro + 1 else decimalPlaces ro)"
    and fin: "div_finish a b t ro e s = Inr (f', rm, r)"
  shows "0 \<le> r" "r \<le> Decimals f'" "decimalPlaces ro \<ge> 0 \<Longrightarrow> r = 0"
    "r > 0 \<Longrightarrow> Len f' = int (length (Norm f')) \<and> Decimals f' \<le> Len f'"
proof -
  define res where "res = add_bytes (d_result s) 48"
  define d where "d = d_decimals s"
  define r0 where "r0 = (if d_repDecimalsInd s \<ge> 0 then d - d_repDecimalsInd s else 0)"
  have lr: "length res = length (d_result s)" by (simp add: res_def add_bytes_def)
  from ex have h: "0 \<le> r0" "r0 \<le> d" "d \<le> int (length res)"
    "r0 > 0 \<Longrightarrow> e_decimalsGoal e > 0 \<Longrightarrow> d < e_decimalsGoal e"
    by (auto simp: exit_ok_def r0_def d_def lr split: if_splits)
  from fin obtain res' d' r' where pad: "div_pad (e_decimalsGoal e) res d r0 = Inr (res', d', r')"
    unfolding div_finish_def Let_def res_def [symmetric] d_def [symmetric] r0_def [symmetric]
    by (auto split: sum.splits prod.splits)
  note pc = div_pad_cases [OF h(1-3) _ pad]
  define f0 where "f0 = \<lparr>Norm = res', Sign = Sign a * Sign b, Decimals = d', Len = int (length res')\<rparr>"
  have pd: "0 \<le> r'" "r' \<le> d'" "d' \<le> int (length res')" using pc(1-3) h(4) by auto
  have g0: "e_decimalsGoal e > 0 \<Longrightarrow> r' = 0" using pc(4) h(4) by auto
  from fin pad have cases: "(decimalPlaces ro \<ge> 0 \<and> r = r' \<and>
        (\<exists>f''. div_round f0 t (decimalPlaces ro) = Inr f'' \<and> f' = f'')) \<or>
      (\<not> (decimalPlaces ro \<ge> 0 \<and> decimalPlaces ro < d') \<and> f' = f0 \<and> r = r')"
    unfolding div_finish_def Let_def res_def [symmetric] d_def [symmetric] r0_def [symmetric]
      f0_def
    by (auto split: sum.splits if_splits)
  have dp0: "decimalPlaces ro \<ge> 0 \<Longrightarrow> r' = 0" using g0 g by auto
  from cases pd show "0 \<le> r" by auto
  from cases dp0 show "decimalPlaces ro \<ge> 0 \<Longrightarrow> r = 0" by auto
  from cases show "r \<le> Decimals f'"
  proof
    assume c: "decimalPlaces ro \<ge> 0 \<and> r = r' \<and>
        (\<exists>f''. div_round f0 t (decimalPlaces ro) = Inr f'' \<and> f' = f'')"
    with dp0 div_round_Decimals [of "decimalPlaces ro" f0 t f'] show ?thesis by auto
  next
    assume "\<not> (decimalPlaces ro \<ge> 0 \<and> decimalPlaces ro < d') \<and> f' = f0 \<and> r = r'"
    with pd show ?thesis by (simp add: f0_def)
  qed
  from cases dp0 pd show "r > 0 \<Longrightarrow> Len f' = int (length (Norm f')) \<and> Decimals f' \<le> Len f'"
    by (auto simp: f0_def)
qed

lemma shifted_Decimals:
  "0 \<le> Decimals x \<Longrightarrow> 0 \<le> Decimals (shifted x sh)"
  by (simp add: shifted_def Let_def Mul10_def Abs_def Copy_def)

lemma divmod_repeat:
  assumes "0 \<le> Decimals a" and "divmod f a b rm0 t opts = Inr (f', rm, r)"
    and "decimalPlaces (div_options opts) < 2 ^ 63 - 1"
  shows "0 \<le> r" "r \<le> Decimals f'" "decimalPlaces (div_options opts) \<ge> 0 \<Longrightarrow> r = 0"
    "r > 0 \<Longrightarrow> Len f' = int (length (Norm f')) \<and> Decimals f' \<le> Len f'"
proof -
  define ro where "ro = div_options opts"
  define aC where "aC = shifted a (Decimals a + Decimals b)"
  define bC where "bC = shifted b (Decimals a + Decimals b)"
  have early: "0 \<le> r \<and> r \<le> Decimals f' \<and> r = 0"
    if "IsInt64 a 0 \<or> (\<not> IsInt64 b 0 \<and> IsInt64 bC 1)"
    using that assms shifted_Decimals [OF assms(1), of "Decimals a + Decimals b"]
    unfolding divmod_def Let_def ro_def [symmetric] aC_def [symmetric] bC_def [symmetric]
    by (auto simp: SetInt64_0 split: if_splits)
  have late: "0 \<le> r \<and> r \<le> Decimals f' \<and> (decimalPlaces ro \<ge> 0 \<longrightarrow> r = 0) \<and>
      (r > 0 \<longrightarrow> Len f' = int (length (Norm f')) \<and> Decimals f' \<le> Len f')"
    if n: "\<not> IsInt64 a 0" "\<not> IsInt64 b 0" "\<not> IsInt64 bC 1"
  proof -
    from n assms(2) obtain s where
      loop: "div_loop (div_env aC bC ro) (div_init aC bC rm0) = Inr s"
      and fin: "div_finish a b t ro (div_env aC bC ro) s = Inr (f', rm, r)"
      unfolding divmod_def Let_def ro_def [symmetric] aC_def [symmetric] bC_def [symmetric]
      by (auto split: sum.splits)
    from div_loop_counters [OF div_init_counters loop]
    have "exit_ok (div_env aC bC ro) s" .
    from div_finish_repeat [OF this div_env_goal fin] assms(3) show ?thesis
      by (auto simp: ro_def)
  qed
  have "IsInt64 b 0 \<Longrightarrow> \<not> IsInt64 a 0 \<Longrightarrow> False"
    using assms(2) by (simp add: divmod_def Let_def)
  with early late show "0 \<le> r" "r \<le> Decimals f'"
    "decimalPlaces (div_options opts) \<ge> 0 \<Longrightarrow> r = 0"
    "r > 0 \<Longrightarrow> Len f' = int (length (Norm f')) \<and> Decimals f' \<le> Len f'"
    unfolding ro_def [symmetric] by blast+
qed


lemma StringF_split:
  assumes "r > 0" "r \<le> Decimals f" "Len f = int (length (Norm f))" "Decimals f \<le> Len f"
  shows "\<exists>P fp. String f = P @ fp \<and> fp = drop (nat (Len f - Decimals f)) (Norm f) \<and>
      int (length fp) = Decimals f \<and>
      StringF f r [] = Inr (P @ take (nat (Decimals f - r)) fp @ ''('' @
                            drop (nat (Decimals f - r)) fp @ '')'')"
proof -
  define fp where "fp = drop (nat (Len f - Decimals f)) (Norm f)"
  define P where "P = (if Sign f = - 1 then ''-'' else []) @
      take (nat (Len f - Decimals f)) (Norm f) @ ''.''"
  have d: "Decimals f > 0" using assms by simp
  have lfp: "int (length fp) = Decimals f" using assms d by (simp add: fp_def)
  have S: "StringWith f [] = P @ fp" "String f = P @ fp"
    using d by (simp_all add: StringWith_def String_def P_def fp_def)
  define m where "m = nat (Decimals f - r)"
  have n: "nat (int (length P) + int (length fp) - r) = length P + m"
    using lfp assms(1,2) by (simp add: m_def)
  have nn: "\<not> int (length P) + int (length fp) < r"
    using lfp assms(1,2) by simp
  have "StringF f r [] = Inr (take (length P + m) (P @ fp) @ ''('' @
          drop (length P + m) (P @ fp) @ '')'')"
    using assms(1) by (simp add: StringF_def S Let_def n nn)
  then have "StringF f r [] = Inr (P @ take (nat (Decimals f - r)) fp @ ''('' @
                            drop (nat (Decimals f - r)) fp @ '')'')"
    by (simp add: m_def)
  with S lfp show ?thesis unfolding fp_def by blast
qed

text \<open>
  C10.  \<open>Div\<close> of 1 by 3 with the option \<open>decimalPlaces\<close> at the largest \<open>int\<close>: the
  target \<open>decimalsGoal\<close> wraps around to the least \<open>int\<close>, the repetend \<open>3\<close> is
  detected, neither the padding nor the rounding runs, and the call returns \<open>0.3\<close> with
  one repeating decimal although a fixed \<open>decimalPlaces\<close> of 0 or more was requested.
\<close>

theorem Div_largest_decimalPlaces_repetend:
  "decimalPlaces (div_options [WithDivDecimalPlaces (2 ^ 63 - 1)]) = 2 ^ 63 - 1 \<and>
   e_decimalsGoal (div_env \<lparr>Norm = ''1'', Sign = 1, Decimals = 0, Len = 1\<rparr>
                     \<lparr>Norm = ''3'', Sign = 1, Decimals = 0, Len = 1\<rparr>
                     (div_options [WithDivDecimalPlaces (2 ^ 63 - 1)])) = - (2 ^ 63) \<and>
   Div New \<lparr>Norm = ''1'', Sign = 1, Decimals = 0, Len = 1\<rparr>
       \<lparr>Norm = ''3'', Sign = 1, Decimals = 0, Len = 1\<rparr> [WithDivDecimalPlaces (2 ^ 63 - 1)] =
     (\<lparr>Norm = ''03'', Sign = 1, Decimals = 1, Len = 2\<rparr>, Inr 1)"
  by code_simp

text \<open>
  Below the largest \<open>int\<close> the bounds hold.  When \<open>Div\<close> succeeds on operands whose
  number of decimals is not negative, the number \<open>r\<close> of repeating decimals it returns
  is between 0 and the number of decimals of the result, and it is 0 whenever the
  option \<open>decimalPlaces\<close> is 0 or more.  So when \<open>r\<close> is positive, the split that
  \<open>StringF\<close> makes \<open>r\<close> characters before the end falls inside the fractional digits
  \<open>fp\<close> of the formatted result.
\<close>

theorem repetend_length_bounds:
  assumes "0 \<le> Decimals a" and "decimalPlaces (div_options opts) < 2 ^ 63 - 1"
    and "Div f a b opts = (f', Inr r)"
  shows "0 \<le> r \<and> r \<le> Decimals f' \<and>
         (if decimalPlaces (div_options opts) \<ge> 0 then r = 0 else True) \<and>
         (if r > 0 then
            (\<exists>P fp. String f' = P @ fp \<and> fp = drop (nat (Len f' - Decimals f')) (Norm f') \<and>
               int (length fp) = Decimals f' \<and>
               StringF f' r [] = Inr (P @ take (nat (Decimals f' - r)) fp @ ''('' @
                                     drop (nat (Decimals f' - r)) fp @ '')''))
          else True)"
proof -
  from assms(3) obtain rm where dm: "divmod f a b BigFloat0 False opts = Inr (f', rm, r)"
    by (auto simp: Div_def split: sum.splits prod.splits)
  note dr = divmod_repeat [OF assms(1) dm assms(2)]
  have "r > 0 \<Longrightarrow> \<exists>P fp. String f' = P @ fp \<and> fp = drop (nat (Len f' - Decimals f')) (Norm f') \<and>
               int (length fp) = Decimals f' \<and>
               StringF f' r [] = Inr (P @ take (nat (Decimals f' - r)) fp @ ''('' @
                                     drop (nat (Decimals f' - r)) fp @ '')'')"
    using dr(2,4) by (intro StringF_split) auto
  with dr(1-3) show ?thesis by auto
qed


subsection \<open>Digit buffers as numbers\<close>

lemma digit_val_nat: "digit_val c = int (of_char c) - 48"
  by (simp add: digit_val_def of_nat_of_char)

lemma digit_val_range: "IsDigit c \<Longrightarrow> 0 \<le> digit_val c \<and> digit_val c \<le> 9"
  by (simp add: IsDigit_def digit_val_nat)

lemma digit_val_zero: "digit_val c = 0 \<longleftrightarrow> c = CHR ''0''"
proof
  assume "digit_val c = 0"
  then have "of_char c = (48::nat)" by (simp add: digit_val_nat)
  also have "\<dots> = of_char (CHR ''0'')" by simp
  finally show "c = CHR ''0''" by (simp only: of_char_eq_iff)
qed (simp add: digit_val_def)

lemma dec_val_Nil [simp]: "dec_val [] = 0"
  by (simp add: dec_val_def)

lemma dec_val_snoc [simp]: "dec_val (s @ [c]) = 10 * dec_val s + digit_val c"
  by (simp add: dec_val_def)

lemma dec_val_append: "dec_val (s @ t) = dec_val s * 10 ^ length t + dec_val t"
  by (induction t rule: rev_induct) (simp_all add: algebra_simps flip: append_assoc)

lemma dec_val_Cons: "dec_val (c # s) = digit_val c * 10 ^ length s + dec_val s"
  using dec_val_append [of "[c]" s] dec_val_snoc [of "[]" c] by simp

lemma dec_val_single [simp]: "dec_val [c] = digit_val c"
  using dec_val_snoc [of "[]" c] by simp

lemma dec_val_nonneg: "list_all IsDigit s \<Longrightarrow> 0 \<le> dec_val s"
  by (induction s rule: rev_induct) (auto dest: digit_val_range)

lemma dec_val_bound: "list_all IsDigit s \<Longrightarrow> dec_val s < 10 ^ length s"
proof (induction s rule: rev_induct)
  case Nil
  then show ?case by simp
next
  case (snoc c s)
  then have "dec_val s + 1 \<le> 10 ^ length s" "digit_val c \<le> 9"
    by (auto dest: digit_val_range)
  then show ?case by simp
qed

lemma dec_val_replicate0 [simp]: "dec_val (replicate n (CHR ''0'')) = 0"
  by (induction n) (simp_all add: dec_val_Cons digit_val_def)

lemma dec_val_zero_iff:
  "list_all IsDigit s \<Longrightarrow> dec_val s = 0 \<longleftrightarrow> list_all (\<lambda>c. c = CHR ''0'') s"
proof (induction s rule: rev_induct)
  case Nil
  then show ?case by simp
next
  case (snoc c s)
  then have d: "list_all IsDigit s" "IsDigit c" by simp_all
  from dec_val_nonneg [OF d(1)] digit_val_range [OF d(2)]
  have "10 * dec_val s + digit_val c = 0 \<longleftrightarrow> dec_val s = 0 \<and> digit_val c = 0" by linarith
  with snoc.IH [OF d(1)] show ?case by (simp add: digit_val_zero)
qed

lemma dec_val_lower:
  assumes "list_all IsDigit s" "s \<noteq> []" "hd s \<noteq> CHR ''0''"
  shows "10 ^ (length s - 1) \<le> dec_val s"
proof -
  from assms obtain c t where s: "s = c # t" and c: "IsDigit c" "c \<noteq> CHR ''0''"
    and t: "list_all IsDigit t" by (cases s) auto
  from c digit_val_range [OF c(1)] digit_val_zero [of c] have "1 \<le> digit_val c" by auto
  then have "(1::int) * 10 ^ length t \<le> digit_val c * 10 ^ length t"
    by (intro mult_right_mono) simp_all
  with dec_val_nonneg [OF t] have "10 ^ length t \<le> digit_val c * 10 ^ length t + dec_val t"
    by linarith
  then show ?thesis by (simp add: s dec_val_Cons)
qed

lemma dec_val_dropWhile0: "dec_val (dropWhile (\<lambda>c. c = CHR ''0'') s) = dec_val s"
  by (induction s) (simp_all add: dec_val_Cons digit_val_def)

lemma IsDigit_0 [simp]: "IsDigit (CHR ''0'')"
  by (simp add: IsDigit_def)

text \<open>The operand copies of \<open>divmod\<close> are integers without leading zeros.\<close>

lemma SetSign_1: "SetSign f 1 = f\<lparr>Sign := 1\<rparr>"
  by (simp add: SetSign.simps)

lemma Mul10_append:
  assumes "\<not> Decimals f - n > 0" "Len f = int (length (Norm f))"
  defines "m \<equiv> dropWhile (\<lambda>c. c = CHR ''0'') (Norm f @ replicate (nat (n - Decimals f)) (CHR ''0''))"
  shows "Mul10 f n = f\<lparr>Norm := m, Len := int (length m), Decimals := 0\<rparr>"
proof -
  define n1 where "n1 = Norm f @ replicate (nat (n - Decimals f)) (CHR ''0'')"
  define f1 where "f1 = f\<lparr>Norm := n1, Len := Len f + (n - Decimals f), Decimals := 0\<rparr>"
  define k where "k = length (takeWhile (\<lambda>c. c = CHR ''0'') n1)"
  have l1: "Len f1 = int (length n1)" using assms(1,2) by (simp add: f1_def n1_def)
  have tk: "take (nat (Len f1 - Decimals f1)) (Norm f1) = n1"
    by (simp add: l1) (simp add: f1_def)
  have dm: "drop k n1 = m" unfolding m_def k_def n1_def by (simp add: dropWhile_eq_drop)
  have lm: "int (length m) = int (length n1) - int k"
    unfolding dm [symmetric] k_def by (simp add: length_takeWhile_le)
  have M: "Mul10 f n = (if int k > 0 then f1\<lparr>Norm := drop k (Norm f1), Len := Len f1 - int k\<rparr> else f1)"
    using assms(1) unfolding Mul10_def Let_def fill_def f1_def [symmetric] n1_def [symmetric] tk
      k_def [symmetric]
    by simp
  show ?thesis
  proof (cases "int k > 0")
    case True
    have "f1\<lparr>Norm := drop k (Norm f1), Len := Len f1 - int k\<rparr> =
        f\<lparr>Norm := m, Len := int (length m), Decimals := 0\<rparr>"
      unfolding lm l1 [symmetric] by (simp add: f1_def dm)
    with True M show ?thesis by simp
  next
    case False
    then have "k = 0" by simp
    with dm lm have "m = n1" "int (length m) = int (length n1)" by simp_all
    then have "f1 = f\<lparr>Norm := m, Len := int (length m), Decimals := 0\<rparr>"
      using l1 by (simp add: f1_def)
    with False M show ?thesis by simp
  qed
qed

lemma shifted_natural:
  assumes "wf x" "\<not> is_zero x" "Decimals x \<le> sh"
  shows "natural (shifted x sh)" "hd (Norm (shifted x sh)) \<noteq> CHR ''0''"
    "val (shifted x sh) = val x * 10 ^ nat (sh - Decimals x)"
proof -
  from assms(1) have len: "Len x = int (length (Norm x))" and d: "0 \<le> Decimals x" "Decimals x < Len x"
    and i4: "I4 x" and dg: "list_all IsDigit (Norm x)"
    by (simp_all add: wf_def invariant_def I1_def I2_def all_digits_def)
  define n where "n = Norm x @ replicate (nat (sh - Decimals x)) (CHR ''0'')"
  define m where "m = dropWhile (\<lambda>c. c = CHR ''0'') n"
  from assms(2) have nz: "\<not> list_all (\<lambda>c. c = CHR ''0'') n"
    by (simp add: is_zero_def n_def)
  then have mne: "m \<noteq> []" unfolding m_def by (simp add: list_all_iff)
  then have hdm: "hd m \<noteq> CHR ''0''" unfolding m_def using hd_dropWhile by blast
  have dgn: "list_all IsDigit n" using dg by (auto simp: n_def list_all_iff)
  then have dgm: "list_all IsDigit m" unfolding m_def list_all_iff by (auto dest: set_dropWhileD)
  have vm: "dec_val m = dec_val (Norm x) * 10 ^ nat (sh - Decimals x)"
    unfolding m_def dec_val_dropWhile0 n_def by (simp add: dec_val_append)
  have sh: "shifted x sh = \<lparr>Norm = m, Sign = 1, Decimals = 0, Len = int (length m)\<rparr>"
  proof (cases "sh > 0")
    case True
    define y where "y = x\<lparr>Sign := 1\<rparr>"
    have "\<not> Decimals y - sh > 0" "Len y = int (length (Norm y))"
      using assms(3) len by (simp_all add: y_def)
    from Mul10_append [OF this]
    have "Mul10 y sh = y\<lparr>Norm := m, Len := int (length m), Decimals := 0\<rparr>"
      by (simp add: y_def m_def n_def)
    with True show ?thesis
      by (simp add: shifted_def Let_def Abs_def Copy_def SetSign_1 y_def)
  next
    case False
    with d assms(3) have z: "sh = 0" "Decimals x = 0" by auto
    then have nx: "n = Norm x" by (simp add: n_def)
    from i4 z len have "Norm x = ''0'' \<or> Norm x = [] \<or> hd (Norm x) \<noteq> CHR ''0''"
      by (auto simp: I4_def split: list.splits if_splits)
    with assms(2) d len have "hd (Norm x) \<noteq> CHR ''0''" "Norm x \<noteq> []"
      by (auto simp: is_zero_def)
    then have "m = Norm x" unfolding m_def nx by (cases "Norm x") auto
    with z len False show ?thesis
      by (simp add: shifted_def Let_def Abs_def Copy_def SetSign_1)
  qed
  show "natural (shifted x sh)" using mne hdm dgm by (simp add: sh natural_def)
  show "hd (Norm (shifted x sh)) \<noteq> CHR ''0''" using hdm by (simp add: sh)
  show "val (shifted x sh) = val x * 10 ^ nat (sh - Decimals x)"
    using vm by (simp add: sh val_def)
qed


subsection \<open>Termination of the division\<close>

lemma quotient_digit_total:
  assumes "e_divPart2Int e \<noteq> 0"
  shows "\<exists>t k. quotient_digit e s = Inr (t, k)"
  using assms
  by (auto simp: quotient_digit_def guess_digit_def Let_def split: sum.splits prod.splits)

lemma emit_cap:
  assumes "d_decimals t \<le> max 1 (e_maxDecimalPlaces e)"
    and "d_bDecimals t \<or> d_decimals t < max 1 (e_maxDecimalPlaces e)"
  shows "emit e t k = Continue s' \<Longrightarrow> d_decimals s' < max 1 (e_maxDecimalPlaces e)"
    and "emit e t k = Break s' \<Longrightarrow>
           d_decimals s' \<ge> e_maxDecimalPlaces e \<and> d_decimals s' \<le> max 1 (e_maxDecimalPlaces e)"
  using assms by (auto simp: emit_def Let_def split: if_splits)

lemma emit_total: "(\<exists>s'. emit e t k = Continue s') \<or> (\<exists>s'. emit e t k = Break s')"
  by (auto simp: emit_def Let_def)

lemma div_step_exit:
  assumes c: "counters_ok e s" and k: "d_decimals s < max 1 (e_maxDecimalPlaces e)"
    and z: "e_divPart2Int e \<noteq> 0"
  shows "(\<exists>s'. div_step e s = Continue s') \<or> (\<exists>s'. div_step e s = Break s')"
    and "div_step e s = Continue s' \<Longrightarrow> d_decimals s' < max 1 (e_maxDecimalPlaces e)"
    and "div_step e s = Break s' \<Longrightarrow>
           exit_reason e s' \<and> d_decimals s' \<le> max 1 (e_maxDecimalPlaces e)"
proof -
  define s1 where "s1 = s\<lparr>d_bDecimals := next_bDecimals e s\<rparr>"
  from c have m: "list_all (\<lambda>(k, v). 0 \<le> v \<and> v < d_decimals s) (d_remIndxMap s)"
    by (simp add: counters_ok_def)
  from div_step_cases [of e s, folded s1_def]
  consider (tests) "div_step e s = Break s1"
        "(d_bDecimals s1 \<and> d_divPart s = ''0'') \<or>
         (e_decimalsGoal e > 0 \<and> d_decimals s = e_decimalsGoal e)"
    | (rep) v where "map_of (d_remIndxMap s) (d_divPart s) = Some v"
        "div_step e s = Break (s1\<lparr>d_repDecimalsInd := v\<rparr>)"
    | (fail) err where "quotient_digit e (advance s1 (next_digit e s)) = Inl err"
    | (digit) t k where "quotient_digit e (advance s1 (next_digit e s)) = Inr (t, k)"
        "div_step e s = emit e t k"
    by blast
  then have "((\<exists>s'. div_step e s = Continue s') \<or> (\<exists>s'. div_step e s = Break s')) \<and>
     (div_step e s = Continue s' \<longrightarrow> d_decimals s' < max 1 (e_maxDecimalPlaces e)) \<and>
     (div_step e s = Break s' \<longrightarrow>
           exit_reason e s' \<and> d_decimals s' \<le> max 1 (e_maxDecimalPlaces e))"
  proof cases
    case tests
    with k show ?thesis by (auto simp: exit_reason_def s1_def)
  next
    case (rep v)
    from map_of_SomeD [OF rep(1)] m have "0 \<le> v" by (auto simp: list_all_iff)
    with rep k show ?thesis by (auto simp: exit_reason_def s1_def)
  next
    case (fail err)
    with quotient_digit_total [OF z, of "advance s1 (next_digit e s)"] show ?thesis by simp
  next
    case (digit t k')
    note qf = quotient_digit_fields [OF digit(1)]
    have dt: "d_decimals t = (if d_bDecimals t then d_decimals s + 1 else d_decimals s)"
      using qf by (simp add: advance_fields s1_def)
    have a1: "d_decimals t \<le> max 1 (e_maxDecimalPlaces e)"
      and a2: "d_bDecimals t \<or> d_decimals t < max 1 (e_maxDecimalPlaces e)"
      using k dt by (auto split: if_splits)
    from emit_cap [OF a1 a2, of k' s'] emit_total [of e t k'] digit(2)
    show ?thesis by (auto simp: exit_reason_def)
  qed
  then show "(\<exists>s'. div_step e s = Continue s') \<or> (\<exists>s'. div_step e s = Break s')"
    and "div_step e s = Continue s' \<Longrightarrow> d_decimals s' < max 1 (e_maxDecimalPlaces e)"
    and "div_step e s = Break s' \<Longrightarrow>
           exit_reason e s' \<and> d_decimals s' \<le> max 1 (e_maxDecimalPlaces e)"
    by blast+
qed

lemma div_loop_exit:
  "e_divPart2Int e \<noteq> 0 \<Longrightarrow> counters_ok e s \<Longrightarrow>
   d_decimals s < max 1 (e_maxDecimalPlaces e) \<Longrightarrow>
    \<exists>s'. div_loop e s = Inr s' \<and> exit_reason e s' \<and> exit_ok e s' \<and>
         d_decimals s' \<le> max 1 (e_maxDecimalPlaces e)"
proof (induction e s rule: div_loop.induct)
  case (1 e s)
  note ex = div_step_exit [OF "1.prems"(2,3,1)]
  note ct = div_step_counters [OF "1.prems"(2)]
  show ?case
  proof (cases "div_step e s")
    case (Break t)
    with ex(3) [of t] ct [of t] show ?thesis
      by (simp add: div_loop.simps [of e s])
  next
    case (Continue t)
    with ex(2) [of t] ct [of t] "1.IH" [OF Continue "1.prems"(1)] show ?thesis
      by (simp add: div_loop.simps [of e s])
  next
    case (Failed err)
    with ex(1) show ?thesis by simp
  qed
qed

lemma Atoi_pos:
  assumes "list_all IsDigit s" "s \<noteq> []" "hd s \<noteq> CHR ''0''"
  shows "0 < Atoi s"
proof -
  from assms obtain c t where s: "s = c # t" and c: "IsDigit c" by (cases s) auto
  from c have nc: "c \<noteq> CHR ''-''" "c \<noteq> CHR ''+''" by (auto simp: IsDigit_def)
  have "(1::int) \<le> 10 ^ (length s - 1)" by simp
  with dec_val_lower [OF assms] have "1 \<le> dec_val s" by linarith
  with assms(1) nc show ?thesis by (simp add: Atoi_def s Let_def)
qed

lemma div_env_divPart2Int:
  assumes "natural bC" "hd (Norm bC) \<noteq> CHR ''0''"
  shows "e_divPart2Int (div_env aC bC ro) \<noteq> 0"
proof -
  define k where "k = nat (if 5 > Len bC then Len bC else 5)"
  from assms(1) have n: "Norm bC \<noteq> []" "list_all IsDigit (Norm bC)" "Len bC = int (length (Norm bC))"
    by (simp_all add: natural_def)
  then have k: "0 < k" by (auto simp: k_def)
  then have "take k (Norm bC) \<noteq> []" "hd (take k (Norm bC)) = hd (Norm bC)"
    using n(1) by (cases "Norm bC"; cases k; simp)+
  moreover have "list_all IsDigit (take k (Norm bC))"
    using n(2) by (auto simp: list_all_iff dest: in_set_takeD)
  ultimately have "0 < Atoi (take k (Norm bC))" using assms(2) by (intro Atoi_pos) simp_all
  then show ?thesis by (simp add: div_env_def Let_def k_def)
qed

lemma div_pad_total:
  assumes "0 \<le> r0" "r0 \<le> d" "d \<le> int (length res)"
  shows "\<exists>p. div_pad g res d r0 = Inr p"
proof (cases "g \<ge> 0 \<and> g > d")
  case False
  then have "div_pad g res d r0 = Inr (res, d, r0)" unfolding div_pad_def by (simp only: if_False)
  then show ?thesis by blast
next
  case True
  define rs where "rs = (if r0 > 0 then drop (nat (int (length res) - r0)) res else ''0'')"
  have ne: "rs \<noteq> []" using assms by (auto simp: rs_def)
  from True have k: "0 \<le> g - d" by simp
  from Repeat_take [OF k ne] obtain t where
    "Repeat rs (quo (g - d) (int (length rs)) + 1) = Inr t" by blast
  with True show ?thesis unfolding div_pad_def Let_def rs_def [symmetric] by simp
qed

lemma div_round_total:
  assumes "0 \<le> dp" "dp < Decimals f" "Decimals f \<le> Len f" "Len f = int (length (Norm f))"
  shows "\<exists>f'. div_round f t dp = Inr f'"
  using assms by (simp add: div_round_def Trunc_def Round_def Let_def)

lemma div_finish_total:
  assumes "exit_ok e s"
  shows "\<exists>p. div_finish a b t ro e s = Inr p"
proof -
  define res where "res = add_bytes (d_result s) 48"
  define d where "d = d_decimals s"
  define r0 where "r0 = (if d_repDecimalsInd s \<ge> 0 then d - d_repDecimalsInd s else 0)"
  have lr: "length res = length (d_result s)" by (simp add: res_def add_bytes_def)
  from assms have h: "0 \<le> r0" "r0 \<le> d" "d \<le> int (length res)"
    "r0 > 0 \<Longrightarrow> e_decimalsGoal e > 0 \<Longrightarrow> d < e_decimalsGoal e"
    by (auto simp: exit_ok_def r0_def d_def lr split: if_splits)
  from div_pad_total [OF h(1-3)] obtain res' d' r' where
    pad: "div_pad (e_decimalsGoal e) res d r0 = Inr (res', d', r')"
    by (metis prod_cases3)
  from div_pad_cases(3) [OF h(1-3) _ pad] h(4) have d': "d' \<le> int (length res')" by blast
  define f0 where "f0 = \<lparr>Norm = res', Sign = Sign a * Sign b, Decimals = d', Len = int (length res')\<rparr>"
  have "\<exists>f'. div_round f0 t (decimalPlaces ro) = Inr f'"
    if "decimalPlaces ro \<ge> 0" "decimalPlaces ro < d'"
    using that d' by (intro div_round_total) (simp_all add: f0_def)
  then show ?thesis
    unfolding div_finish_def Let_def res_def [symmetric] d_def [symmetric] r0_def [symmetric] pad
      f0_def
    by auto
qed


lemma e_maxDecimalPlaces_div_env [simp]:
  "e_maxDecimalPlaces (div_env aC bC ro) = maxDecimalPlaces ro"
  by (simp add: div_env_def Let_def)

lemma div_init_decimals [simp]: "d_decimals (div_init aC bC r) = 0"
  by (simp add: div_init_def Let_def)

lemma divmod_total:
  assumes "wf a" "wf b" "\<not> is_zero b"
  shows "\<exists>p. divmod f a b rm0 t opts = Inr p"
proof -
  define sh where "sh = Decimals a + Decimals b"
  define aC where "aC = shifted a sh"
  define bC where "bC = shifted b sh"
  define e where "e = div_env aC bC (div_options opts)"
  from assms(1) have "0 \<le> Decimals a" by (simp add: wf_def invariant_def I2_def)
  then have "Decimals b \<le> sh" by (simp add: sh_def)
  from shifted_natural(1,2) [OF assms(2,3) this] have z: "e_divPart2Int e \<noteq> 0"
    unfolding e_def bC_def by (rule div_env_divPart2Int)
  have mp: "(0::int) < max 1 (maxDecimalPlaces (div_options opts))"
    by (simp add: less_max_iff_disj)
  from div_loop_exit [OF z div_init_counters, of aC bC rm0] mp
  obtain s' where s': "div_loop e (div_init aC bC rm0) = Inr s'" "exit_ok e s'"
    by (auto simp: e_def)
  from div_finish_total [OF s'(2), of a b t "div_options opts"]
  obtain p where "div_finish a b t (div_options opts) e s' = Inr p" by blast
  with s'(1) wf_IsInt64_0 [OF assms(2)] assms(3) show ?thesis
    unfolding divmod_def Let_def sh_def [symmetric] aC_def [symmetric] bC_def [symmetric]
      e_def [symmetric]
    by (cases p) auto
qed

text \<open>
  C9.  The string \<open>0.00005e6\<close> parses to the digits \<open>0000050\<close> without decimals: the
  folding of the exponent keeps the zeros in front.  This divisor is not zero, and
  \<open>divmod\<close> takes its first five digits \<open>00000\<close> as the divisor of the estimate.  With
  the dividend 1234567 the first iteration of the loop divides by this 0: the loop, \<open>Div\<close>
  and \<open>DivMod\<close> stop with the panic of an integer division by zero and return no
  result.
\<close>

theorem Div_leading_zeros_divides_by_zero:
  "SetString BigFloat0 ''0.00005e6'' =
     Inr \<lparr>Norm = ''0000050'', Sign = 1, Decimals = 0, Len = 7\<rparr> \<and>
   \<not> is_zero \<lparr>Norm = ''0000050'', Sign = 1, Decimals = 0, Len = 7\<rparr> \<and>
   \<not> IsInt64 \<lparr>Norm = ''0000050'', Sign = 1, Decimals = 0, Len = 7\<rparr> 0 \<and>
   e_divPart2Int (div_env \<lparr>Norm = ''1234567'', Sign = 1, Decimals = 0, Len = 7\<rparr>
                    \<lparr>Norm = ''0000050'', Sign = 1, Decimals = 0, Len = 7\<rparr> (div_options [])) = 0 \<and>
   div_loop (div_env \<lparr>Norm = ''1234567'', Sign = 1, Decimals = 0, Len = 7\<rparr>
               \<lparr>Norm = ''0000050'', Sign = 1, Decimals = 0, Len = 7\<rparr> (div_options []))
     (div_init \<lparr>Norm = ''1234567'', Sign = 1, Decimals = 0, Len = 7\<rparr>
        \<lparr>Norm = ''0000050'', Sign = 1, Decimals = 0, Len = 7\<rparr> BigFloat0) =
     Inl IntegerDivideByZero \<and>
   Div New \<lparr>Norm = ''1234567'', Sign = 1, Decimals = 0, Len = 7\<rparr>
       \<lparr>Norm = ''0000050'', Sign = 1, Decimals = 0, Len = 7\<rparr> [] =
     (New, Inl IntegerDivideByZero) \<and>
   DivMod New \<lparr>Norm = ''1234567'', Sign = 1, Decimals = 0, Len = 7\<rparr>
       \<lparr>Norm = ''0000050'', Sign = 1, Decimals = 0, Len = 7\<rparr> =
     (New, Inl IntegerDivideByZero)"
  by code_simp

text \<open>
  On well-formed operands the division is total.  The loop of \<open>divmod\<close> is the
  function \<open>div_loop\<close>, whose termination is proved with its definition, for every
  environment and state.  For well-formed operands with a divisor that is not zero,
  whatever the options, the loop returns a state, left at one of its four exits (a zero
  remainder past the dividend, the decimal budget, a repeated remainder, the cap) with
  at most \<open>max 1 maxDecimalPlaces\<close> fractional digits counted, and both \<open>Div\<close> and
  \<open>DivMod\<close> return a result.
\<close>

theorem division_terminates:
  assumes "wf a" and "wf b" and "\<not> is_zero b"
  shows "(\<exists>f' r. Div f a b opts = (f', Inr r)) \<and> (\<exists>f' r. DivMod f a b = (f', Inr r)) \<and>
    (let sh = Decimals a + Decimals b;
         e = div_env (shifted a sh) (shifted b sh) (div_options opts)
     in \<exists>s'. div_loop e (div_init (shifted a sh) (shifted b sh) BigFloat0) = Inr s' \<and>
          exit_reason e s' \<and>
          d_decimals s' \<le> max 1 (maxDecimalPlaces (div_options opts)))"
proof -
  from divmod_total [OF assms, of f BigFloat0 False opts]
  have 1: "\<exists>f' r. Div f a b opts = (f', Inr r)"
    by (auto simp: Div_def split: sum.splits prod.splits)
  from divmod_total [OF assms, of f BigFloat0 True "[WithDivDecimalPlaces 0]"]
  have 2: "\<exists>f' r. DivMod f a b = (f', Inr r)"
    by (auto simp: DivMod_def split: sum.splits prod.splits)
  define sh where "sh = Decimals a + Decimals b"
  define e where "e = div_env (shifted a sh) (shifted b sh) (div_options opts)"
  from assms(1) have "0 \<le> Decimals a" by (simp add: wf_def invariant_def I2_def)
  then have "Decimals b \<le> sh" by (simp add: sh_def)
  from shifted_natural(1,2) [OF assms(2,3) this] have z: "e_divPart2Int e \<noteq> 0"
    unfolding e_def by (rule div_env_divPart2Int)
  have mp: "(0::int) < max 1 (maxDecimalPlaces (div_options opts))"
    by (simp add: less_max_iff_disj)
  from div_loop_exit [OF z div_init_counters, of "shifted a sh" "shifted b sh" BigFloat0] mp
  have 3: "\<exists>s'. div_loop e (div_init (shifted a sh) (shifted b sh) BigFloat0) = Inr s' \<and>
          exit_reason e s' \<and> d_decimals s' \<le> max 1 (maxDecimalPlaces (div_options opts))"
    by (auto simp: e_def)
  from 1 2 3 show ?thesis
    unfolding Let_def sh_def [symmetric] e_def [symmetric] by simp
qed

theorem division_terminates_witness:
  "wf \<lparr>Norm = ''1'', Sign = 1, Decimals = 0, Len = 1\<rparr> \<and>
   wf \<lparr>Norm = ''3'', Sign = 1, Decimals = 0, Len = 1\<rparr> \<and>
   \<not> is_zero \<lparr>Norm = ''3'', Sign = 1, Decimals = 0, Len = 1\<rparr> \<and>
   (\<exists>f' r. Div New \<lparr>Norm = ''1'', Sign = 1, Decimals = 0, Len = 1\<rparr>
              \<lparr>Norm = ''3'', Sign = 1, Decimals = 0, Len = 1\<rparr> [WithDivMaxDecimalPlaces 0] =
            (f', Inr r)) \<and>
   (\<exists>f' r. DivMod New \<lparr>Norm = ''1'', Sign = 1, Decimals = 0, Len = 1\<rparr>
              \<lparr>Norm = ''3'', Sign = 1, Decimals = 0, Len = 1\<rparr> = (f', Inr r))"
proof -
  have a: "wf \<lparr>Norm = ''1'', Sign = 1, Decimals = 0, Len = 1\<rparr>" by code_simp
  have b: "wf \<lparr>Norm = ''3'', Sign = 1, Decimals = 0, Len = 1\<rparr>" by code_simp
  have z: "\<not> is_zero \<lparr>Norm = ''3'', Sign = 1, Decimals = 0, Len = 1\<rparr>" by code_simp
  from division_terminates [OF a b z, of New "[WithDivMaxDecimalPlaces 0]"] a b z
  show ?thesis by blast
qed



subsection \<open>Arithmetic on digit buffers\<close>

lemma le_num_append: "le_num (xs @ ys) = le_num xs + 10 ^ length xs * le_num ys"
  by (induction xs) (simp_all add: algebra_simps)

lemma le_num_snoc: "le_num (xs @ [d]) = le_num xs + d * 10 ^ length xs"
  by (simp add: le_num_append)

lemma le_num_replicate0 [simp]: "le_num (replicate k 0) = 0"
  by (induction k) simp_all

lemma le_num_bounds: "small ds \<Longrightarrow> 0 \<le> le_num ds \<and> le_num ds < 10 ^ length ds"
  by (induction ds) (auto simp: small_def)

lemma le_num_rev_digits: "le_num (map digit_val (rev s)) = dec_val s"
  by (induction s rule: rev_induct) simp_all

lemma digits_le_eq:
  assumes "length s \<le> L"
  shows "digits_le s L = map digit_val (rev s) @ replicate (L - length s) 0"
proof (rule nth_equalityI)
  show "length (digits_le s L) = length (map digit_val (rev s) @ replicate (L - length s) 0)"
    using assms by (simp add: digits_le_def)
next
  fix i assume "i < length (digits_le s L)"
  then have "i < L" by (simp add: digits_le_def)
  then show "digits_le s L ! i = (map digit_val (rev s) @ replicate (L - length s) 0) ! i"
    by (cases "i < length s") (simp_all add: digits_le_def dig_def nth_append)
qed

lemma le_num_digits_le: "length s \<le> L \<Longrightarrow> le_num (digits_le s L) = dec_val s"
  by (simp add: digits_le_eq le_num_append le_num_rev_digits)

lemma dig_range: "list_all IsDigit s \<Longrightarrow> 0 \<le> dig s p \<and> dig s p \<le> 9"
proof (cases "p < length s")
  case True
  assume "list_all IsDigit s"
  with True have "IsDigit (rev s ! p)"
    by (metis length_rev list_all_length list_all_rev)
  with True digit_val_range show ?thesis by (simp add: dig_def)
next
  case False
  then show ?thesis by (simp add: dig_def)
qed

lemma small_digits_le: "list_all IsDigit s \<Longrightarrow> small (digits_le s L)"
  using dig_range [of s] by (simp add: small_def digits_le_def list_all_iff)

lemma length_digits_le [simp]: "length (digits_le s L) = L"
  by (simp add: digits_le_def)

lemma digits_le_nth [simp]: "p < L \<Longrightarrow> digits_le s L ! p = dig s p"
  by (simp add: digits_le_def)

lemma le_num_take_Suc:
  "n < length xs \<Longrightarrow> le_num (take (Suc n) xs) = le_num (take n xs) + xs ! n * 10 ^ n"
  by (simp add: take_Suc_conv_app_nth le_num_snoc)

text \<open>Reading a digit of an integer through \<open>read\<close>.\<close>

lemma read_dig:
  assumes "Len f = int (length (Norm f))" "c_offset c = 0"
  shows "read (int p) f c (- 48) = dig (Norm f) p"
proof (cases "p < length (Norm f)")
  case True
  then have "nat (int (length (Norm f)) - int p - 1) = length (Norm f) - Suc p" by linarith
  with True assms show ?thesis
    by (simp add: read_def Let_def dig_def rev_nth digit_val_def)
next
  case False
  with assms show ?thesis by (simp add: read_def Let_def dig_def)
qed

lemma byte_small: "0 \<le> d \<Longrightarrow> d \<le> 9 \<Longrightarrow> (of_char (char_of (d::int) :: char) :: int) = d"
  by simp

lemma char_of_digit_zero: "0 \<le> d \<Longrightarrow> d \<le> 9 \<Longrightarrow> (char_of (d::int) :: char) = char_of (0::nat) \<longleftrightarrow> d = 0"
proof -
  assume d: "0 \<le> d" "d \<le> 9"
  have "(char_of d :: char) = char_of (0::int) \<longleftrightarrow> d mod 256 = 0 mod 256"
    by (rule char_of_quasi_inj)
  moreover have "(char_of (0::nat) :: char) = char_of (0::int)" by (simp add: char_of_def)
  ultimately show ?thesis using d by simp
qed

lemma digit_val_ascii: "0 \<le> d \<Longrightarrow> d \<le> 9 \<Longrightarrow> digit_val (char_of ((of_char (char_of d :: char) :: int) + 48)) = d"
  by (simp add: digit_val_def)

lemma IsDigit_ascii: "0 \<le> d \<Longrightarrow> d \<le> 9 \<Longrightarrow> IsDigit (char_of ((of_char (char_of (d::int) :: char) :: int) + 48))"
proof -
  assume d: "0 \<le> d" "d \<le> 9"
  let ?c = "char_of ((of_char (char_of (d::int) :: char) :: int) + 48) :: char"
  have "(of_char ?c :: int) = d + 48" using d by simp
  then have "int (of_char ?c) = d + 48" by (simp add: of_nat_of_char)
  with d show ?thesis unfolding IsDigit_def by linarith
qed

lemma trim_Cons:
  "trim (x # xs) = (if xs = [] then [x] else if x = 0 then trim xs else x # xs)"
  by (simp add: trim_def)

lemma trim_props:
  "xs \<noteq> [] \<Longrightarrow> trim xs \<noteq> [] \<and> (hd (trim xs) \<noteq> 0 \<or> trim xs = [0]) \<and>
     le_num (rev (trim xs)) = le_num (rev xs) \<and> set (trim xs) \<subseteq> set xs"
proof (induction xs)
  case Nil
  then show ?case by simp
next
  case (Cons x xs)
  show ?case
  proof (cases "xs = []")
    case True
    then show ?thesis by (simp add: trim_Cons)
  next
    case False
    with Cons.IH show ?thesis by (auto simp: trim_Cons le_num_snoc)
  qed
qed

lemma trim_leading_map:
  assumes "small xs"
  shows "trim_leading (map char_of xs) 0 = map char_of (trim xs)"
proof -
  have tw: "takeWhile (\<lambda>c. c = char_of (0::nat)) (map char_of ys) =
            map char_of (takeWhile (\<lambda>d. d = 0) ys)" if "small ys" for ys :: "int list"
    using that by (induction ys) (auto simp: small_def char_of_digit_zero)
  have sb: "small (butlast xs)" using assms by (auto simp: small_def list_all_iff dest: in_set_butlastD)
  have "take (length xs - 1) (map char_of xs) = map char_of (butlast xs)"
    by (simp add: butlast_conv_take take_map)
  then have "take (nat (int (length (map char_of xs :: string)) - 0 - 1)) (map char_of xs) =
      (map char_of (butlast xs) :: string)"
    by (simp add: nat_diff_distrib')
  then show ?thesis
    unfolding trim_leading_def trim_def
    by (cases "xs = []") (simp_all add: tw [OF sb] drop_map)
qed

lemma digit_val_ascii2: "0 \<le> d \<Longrightarrow> d \<le> 9 \<Longrightarrow> digit_val (ascii d) = d"
  unfolding ascii_def by (rule digit_val_ascii)

lemma IsDigit_ascii2: "0 \<le> d \<Longrightarrow> d \<le> 9 \<Longrightarrow> IsDigit (ascii d)"
  unfolding ascii_def by (rule IsDigit_ascii)

lemma dec_val_ascii: "small ys \<Longrightarrow> dec_val (map ascii ys) = le_num (rev ys)"
  by (induction ys rule: rev_induct) (simp_all add: small_def digit_val_ascii2)

lemma to_buffer_natural:
  assumes "small ds" "ds \<noteq> []"
  shows "list_all IsDigit (to_buffer ds)" "to_buffer ds \<noteq> []"
    "hd (to_buffer ds) \<noteq> CHR ''0'' \<or> to_buffer ds = ''0''"
    "dec_val (to_buffer ds) = le_num ds"
proof -
  define ys where "ys = trim (rev ds)"
  have sr: "small (rev ds)" using assms(1) by (simp add: small_def)
  from trim_props [of "rev ds"] assms(2)
  have t: "ys \<noteq> []" "hd ys \<noteq> 0 \<or> ys = [0]" "le_num (rev ys) = le_num ds" "set ys \<subseteq> set (rev ds)"
    by (simp_all add: ys_def)
  from t(4) sr have sy: "small ys" by (auto simp: small_def list_all_iff)
  have "reverse (map char_of ds) = (map char_of (rev ds) :: string)"
    by (simp add: reverse_def rev_map)
  then have "trim_leading (reverse (map char_of ds)) 0 = map char_of ys"
    using trim_leading_map [OF sr] by (simp add: ys_def)
  then have tb: "to_buffer ds = map ascii ys"
    unfolding to_buffer_def by (simp add: add_bytes_def ascii_def)
  show "list_all IsDigit (to_buffer ds)"
    using sy unfolding tb by (auto simp: small_def list_all_iff IsDigit_ascii2)
  show "to_buffer ds \<noteq> []" using t(1) by (simp add: tb)
  show "dec_val (to_buffer ds) = le_num ds" using dec_val_ascii [OF sy] t(3) by (simp add: tb)
  from t(1) obtain y yr where y: "ys = y # yr" by (cases ys) auto
  with sy have y9: "0 \<le> y" "y \<le> 9" by (simp_all add: small_def)
  have a0: "ascii 0 = CHR ''0''"
    by (rule of_char_eqI [where ?'a = int]) (simp add: ascii_def)
  have "ascii y = CHR ''0'' \<Longrightarrow> y = 0"
  proof -
    assume "ascii y = CHR ''0''"
    then have "digit_val (ascii y) = 0" by (simp add: digit_val_def)
    with y9 show "y = 0" by (simp add: digit_val_ascii2)
  qed
  with t(2) y a0 show "hd (to_buffer ds) \<noteq> CHR ''0'' \<or> to_buffer ds = ''0''"
    by (auto simp: tb)
qed

lemma align_naturals:
  assumes "Decimals a = 0" "Decimals b = 0"
  shows "align [a, b] =
    \<lparr>MaxIntLen = max (Len a) (Len b), MaxDecLen = 0, al_Len = max (Len a) (Len b),
     corrections = [\<lparr>c_offset = 0, c_reverse = max (Len a) (Len b) - Len a\<rparr>,
                    \<lparr>c_offset = 0, c_reverse = max (Len a) (Len b) - Len b\<rparr>]\<rparr>"
  using assms by (simp add: align_def Let_def max_def)

lemma multiRead_read:
  assumes "natural a" "natural b"
  shows "multiRead (int p) [a, b] (align [a, b]) (- 48) read = [dig (Norm a) p, dig (Norm b) p]"
proof -
  from assms have d: "Decimals a = 0" "Decimals b = 0"
    and l: "Len a = int (length (Norm a))" "Len b = int (length (Norm b))"
    by (simp_all add: natural_def)
  show ?thesis
    unfolding align_naturals [OF d] multiRead_def
    by (simp add: read_dig [OF l(1)] read_dig [OF l(2)])
qed

lemma sub_unfold:
  "sub a b =
    (let (overflow, buf) = foldl (sub_step a b) (0, []) [0 ..< nat (al_Len (align [a, b]))];
         totalBuf = add_bytes (trim_leading (reverse buf) (MaxDecLen (align [a, b]))) 48
     in \<lparr>Norm = totalBuf, Sign = 1, Decimals = MaxDecLen (align [a, b]),
          Len = int (length totalBuf)\<rparr>)"
  by (simp add: sub_def sub_step_def Let_def)

lemma sub_fold:
  fixes L :: nat
  assumes "natural a" "natural b"
  defines "as \<equiv> digits_le (Norm a) L" and "bs \<equiv> digits_le (Norm b) L"
  shows "n \<le> L \<Longrightarrow> \<exists>borrow ds. foldl (sub_step a b) (0, []) [0 ..< n] = (borrow, map char_of ds) \<and>
      length ds = n \<and> small ds \<and> (borrow = 0 \<or> borrow = 1) \<and>
      le_num ds - borrow * 10 ^ n = le_num (take n as) - le_num (take n bs)"
proof (induction n)
  case 0
  then show ?case by (simp add: small_def)
next
  case (Suc n)
  then obtain borrow ds where ih: "foldl (sub_step a b) (0, []) [0 ..< n] = (borrow, map char_of ds)"
      "length ds = n" "small ds" "borrow = 0 \<or> borrow = 1"
      "le_num ds - borrow * 10 ^ n = le_num (take n as) - le_num (take n bs)"
    by auto
  from Suc.prems have n: "n < L" by simp
  define x where "x = as ! n"
  define y where "y = bs ! n"
  have xy: "x = dig (Norm a) n" "y = dig (Norm b) n" using n by (simp_all add: x_def y_def as_def bs_def)
  from assms(1,2) have dg: "list_all IsDigit (Norm a)" "list_all IsDigit (Norm b)"
    by (simp_all add: natural_def)
  have rg: "0 \<le> x" "x \<le> 9" "0 \<le> y" "y \<le> 9"
    using dig_range [OF dg(1), of n] dig_range [OF dg(2), of n] by (simp_all add: xy)
  define bw where "bw = (if x - borrow < y then 1 else 0 :: int)"
  define df where "df = (if x - borrow < y then x - borrow + 10 else x - borrow) - y"
  have st: "sub_step a b (borrow, map char_of ds) n = (bw, map char_of (ds @ [df]))"
    unfolding sub_step_def multiRead_read [OF assms(1,2)]
    by (simp add: Let_def xy bw_def df_def)
  have d9: "0 \<le> df" "df \<le> 9" using rg ih(4) by (auto simp: df_def)
  have rel: "df - 10 * bw = x - borrow - y" by (simp add: df_def bw_def)
  have tk: "le_num (take (Suc n) as) = le_num (take n as) + x * 10 ^ n"
    "le_num (take (Suc n) bs) = le_num (take n bs) + y * 10 ^ n"
    using n by (simp_all add: le_num_take_Suc as_def bs_def x_def y_def)
  have "le_num (ds @ [df]) - bw * 10 ^ Suc n =
      (le_num ds - borrow * 10 ^ n) + (df - 10 * bw + borrow) * 10 ^ n"
    by (simp add: le_num_snoc ih(2) algebra_simps)
  also have "\<dots> = le_num (take (Suc n) as) - le_num (take (Suc n) bs)"
    unfolding ih(5) rel tk by (simp add: algebra_simps)
  finally have inv: "le_num (ds @ [df]) - bw * 10 ^ Suc n =
      le_num (take (Suc n) as) - le_num (take (Suc n) bs)" .
  have "foldl (sub_step a b) (0, []) [0 ..< Suc n] = (bw, map char_of (ds @ [df]))"
    using ih(1) st by simp
  moreover have "small (ds @ [df])" using ih(3) d9 by (simp add: small_def)
  moreover have "bw = 0 \<or> bw = 1" by (simp add: bw_def)
  ultimately show ?case using inv ih(2) by (intro exI [of _ bw] exI [of _ "ds @ [df]"]) simp
qed

lemma sub_natural:
  assumes "natural a" "natural b" "val b \<le> val a"
  shows "natural (sub a b)" "val (sub a b) = val a - val b"
proof -
  define L where "L = nat (max (Len a) (Len b))"
  from assms(1,2) have d: "Decimals a = 0" "Decimals b = 0"
    and l: "Len a = int (length (Norm a))" "Len b = int (length (Norm b))"
    and dg: "list_all IsDigit (Norm a)" "list_all IsDigit (Norm b)" and ne: "Norm a \<noteq> []"
    by (simp_all add: natural_def)
  from ne have "0 < length (Norm a)" by simp
  then have L: "length (Norm a) \<le> L" "length (Norm b) \<le> L" "0 < L"
    unfolding L_def l by linarith+
  from sub_fold [OF assms(1,2), of L L]
  obtain borrow ds where f: "foldl (sub_step a b) (0, []) [0 ..< L] = (borrow, map char_of ds)"
      "length ds = L" "small ds" "borrow = 0 \<or> borrow = 1"
      "le_num ds - borrow * 10 ^ L = val a - val b"
    by (auto simp: le_num_digits_le [OF L(1)] le_num_digits_le [OF L(2)] val_def)
  from le_num_bounds [OF f(3)] f(2) have b: "0 \<le> le_num ds" "le_num ds < 10 ^ L" by simp_all
  from f(4,5) b assms(3) have b0: "borrow = 0" by auto
  with f(5) have v: "le_num ds = val a - val b" by simp
  from f(2) L(3) have dne: "ds \<noteq> []" by auto
  have s: "sub a b = \<lparr>Norm = to_buffer ds, Sign = 1, Decimals = 0,
                       Len = int (length (to_buffer ds))\<rparr>"
    unfolding sub_unfold align_naturals [OF d] using f(1)
    by (simp add: L_def [symmetric] to_buffer_def Let_def)
  note tb = to_buffer_natural [OF f(3) dne]
  show "natural (sub a b)" using tb by (simp add: s natural_def)
  show "val (sub a b) = val a - val b" using tb(4) v by (simp add: s val_def)
qed

lemma reverse_read_dig:
  assumes "Len f = int (length (Norm f))" "c_reverse c = int L - Len f" "length (Norm f) \<le> L"
    "i < L"
  shows "reverse_read (int i) f c (- 48) = dig (Norm f) (L - 1 - i)"
proof (cases "L - 1 - i < length (Norm f)")
  case True
  with assms have e: "nat (int i - (int L - int (length (Norm f)))) =
      length (Norm f) - Suc (L - 1 - i)" by linarith
  from True assms have r: "0 \<le> int i - (int L - int (length (Norm f)))"
    "int i - (int L - int (length (Norm f))) < int (length (Norm f))" by linarith+
  from True show ?thesis
    using assms(1,2) r by (simp add: reverse_read_def Let_def dig_def rev_nth e digit_val_def)
next
  case False
  with assms have "\<not> 0 \<le> int i - (int L - int (length (Norm f)))" by linarith
  with False assms(1,2) show ?thesis by (simp add: reverse_read_def Let_def dig_def)
qed

lemma multiRead_reverse:
  assumes "natural a" "natural b" "i < nat (max (Len a) (Len b))"
  defines "L \<equiv> nat (max (Len a) (Len b))"
  shows "multiRead (int i) [a, b] (align [a, b]) (- 48) reverse_read =
      [rev (digits_le (Norm a) L) ! i, rev (digits_le (Norm b) L) ! i]"
proof -
  from assms(1,2) have d: "Decimals a = 0" "Decimals b = 0"
    and l: "Len a = int (length (Norm a))" "Len b = int (length (Norm b))"
    by (simp_all add: natural_def)
  have L: "length (Norm a) \<le> L" "length (Norm b) \<le> L" "int L = max (Len a) (Len b)"
    unfolding L_def l by linarith+
  have i: "i < L" using assms(3) by (simp add: L_def)
  have c: "max (Len a) (Len b) - Len a = int L - Len a" "max (Len a) (Len b) - Len b = int L - Len b"
    using L(3) by simp_all
  have r: "rev (digits_le s L) ! i = dig s (L - 1 - i)" for s
    using i by (simp add: rev_nth)
  show ?thesis
    unfolding align_naturals [OF d] multiRead_def c
    using reverse_read_dig [OF l(1) _ L(1) i] reverse_read_dig [OF l(2) _ L(2) i]
    by (simp add: r)
qed

lemma compare_loop_lexcmp:
  assumes "natural a" "natural b"
  defines "L \<equiv> nat (max (Len a) (Len b))"
  shows "k \<le> L \<Longrightarrow> compare_loop [k ..< L] [a, b] (align [a, b]) s =
      lexcmp (drop k (rev (digits_le (Norm a) L))) (drop k (rev (digits_le (Norm b) L))) s"
proof (induction "L - k" arbitrary: k)
  case 0
  then show ?case by simp
next
  case (Suc m)
  then have k: "k < L" by simp
  then have u: "[k ..< L] = k # [Suc k ..< L]" by (simp add: upt_conv_Cons)
  have dr: "drop k (rev (digits_le s L)) = rev (digits_le s L) ! k # drop (Suc k) (rev (digits_le s L))" for s
    using k by (simp add: Cons_nth_drop_Suc)
  from Suc have ih: "compare_loop [Suc k ..< L] [a, b] (align [a, b]) s =
      lexcmp (drop (Suc k) (rev (digits_le (Norm a) L))) (drop (Suc k) (rev (digits_le (Norm b) L))) s"
    by simp
  show ?case
    unfolding u compare_loop.simps
      multiRead_reverse [OF assms(1,2) k [unfolded L_def], folded L_def]
    by (simp add: Let_def dr [of "Norm a"] dr [of "Norm b"] ih)
qed

lemma be_num_Cons: "le_num (rev (x # xs)) = x * 10 ^ length xs + le_num (rev xs)"
  by (simp add: le_num_snoc)

lemma lex_lt:
  fixes u v p q :: int
  assumes "p < 10 ^ n" "0 \<le> q" "u < v"
  shows "u * 10 ^ n + p < v * 10 ^ n + q"
proof -
  from assms(3) have "u + 1 \<le> v" by simp
  then have "(u + 1) * 10 ^ n \<le> v * (10 ^ n :: int)"
    by (intro mult_right_mono) simp_all
  with assms(1,2) show ?thesis by (simp add: algebra_simps)
qed

lemma lexcmp_num:
  assumes "length xs = length ys" "small xs" "small ys"
  shows "lexcmp xs ys s =
    (if le_num (rev xs) < le_num (rev ys) then - s
     else if le_num (rev xs) > le_num (rev ys) then s else 0)"
  using assms
proof (induction xs ys rule: list_induct2)
  case Nil
  then show ?case by simp
next
  case (Cons x xs y ys)
  then have sm: "small xs" "small ys" "small (rev xs)" "small (rev ys)"
    by (simp_all add: small_def)
  from le_num_bounds [OF sm(3)] le_num_bounds [OF sm(4)] Cons.hyps
  have b: "0 \<le> le_num (rev xs)" "le_num (rev xs) < 10 ^ length xs"
    "0 \<le> le_num (rev ys)" "le_num (rev ys) < 10 ^ length xs" by simp_all
  have X: "le_num (rev (x # xs)) = x * 10 ^ length xs + le_num (rev xs)"
    and Y: "le_num (rev (y # ys)) = y * 10 ^ length xs + le_num (rev ys)"
    using Cons.hyps by (simp_all add: le_num_snoc)
  show ?case
  proof (cases "x < y")
    case True
    from lex_lt [OF b(2) b(3) True] True show ?thesis
      unfolding lexcmp.simps X Y by simp
  next
    case nlt: False
    show ?thesis
    proof (cases "y < x")
      case True
      from lex_lt [OF b(4) b(1) True]
      have "y * 10 ^ length xs + le_num (rev ys) < x * 10 ^ length xs + le_num (rev xs)" .
      with True nlt show ?thesis
        unfolding lexcmp.simps X Y by simp
    next
      case False
      with nlt have "x = y" by simp
      with Cons.IH [OF sm(1,2)] show ?thesis
        unfolding lexcmp.simps X Y by simp
    qed
  qed
qed

lemma compare_natural:
  assumes "natural a" "natural b"
  shows "compare a b ab = (if val a < val b then - 1 else if val a > val b then 1 else 0)"
proof -
  define L where "L = nat (max (Len a) (Len b))"
  from assms(1,2) have d: "Decimals a = 0" "Decimals b = 0"
    and l: "Len a = int (length (Norm a))" "Len b = int (length (Norm b))"
    and dg: "list_all IsDigit (Norm a)" "list_all IsDigit (Norm b)"
    and sg: "Sign a = 1" "Sign b = 1"
    by (simp_all add: natural_def)
  have L: "length (Norm a) \<le> L" "length (Norm b) \<le> L"
    unfolding L_def l by linarith+
  have "compare a b ab = compare_loop [0 ..< L] [a, b] (align [a, b]) 1"
    using sg by (simp add: compare_def Let_def align_naturals [OF d] L_def)
  also have "\<dots> = lexcmp (rev (digits_le (Norm a) L)) (rev (digits_le (Norm b) L)) 1"
    using compare_loop_lexcmp [OF assms, of 0 1] by (simp add: L_def)
  also have "\<dots> = (if val a < val b then - 1 else if val a > val b then 1 else 0)"
    using lexcmp_num [of "rev (digits_le (Norm a) L)" "rev (digits_le (Norm b) L)" 1]
      small_digits_le [OF dg(1), of L] small_digits_le [OF dg(2), of L]
    by (simp add: small_def le_num_digits_le [OF L(1)] le_num_digits_le [OF L(2)] val_def)
  finally show ?thesis .
qed

lemma natural_zero_iff:
  assumes "natural a"
  shows "val a = 0 \<longleftrightarrow> Norm a = ''0''" "IsInt64 a 0 \<longleftrightarrow> Norm a = ''0''"
proof -
  from assms have dg: "list_all IsDigit (Norm a)" and ne: "Norm a \<noteq> []"
    and hd: "hd (Norm a) \<noteq> CHR ''0'' \<or> Norm a = ''0''"
    and f: "Sign a = 1" "Decimals a = 0" "Len a = int (length (Norm a))"
    by (simp_all add: natural_def)
  show "val a = 0 \<longleftrightarrow> Norm a = ''0''"
  proof
    assume "val a = 0"
    with dg have "list_all (\<lambda>c. c = CHR ''0'') (Norm a)" by (simp add: val_def dec_val_zero_iff)
    with ne have "hd (Norm a) = CHR ''0''" by (cases "Norm a") simp_all
    with hd show "Norm a = ''0''" by simp
  qed (simp add: val_def digit_val_def)
  show "IsInt64 a 0 \<longleftrightarrow> Norm a = ''0''"
    using f by (auto simp: IsInt64_0)
qed

lemma natural_zero: "natural \<lparr>Norm = ''0'', Sign = 1, Decimals = 0, Len = 1\<rparr>"
  by (simp add: natural_def)

lemma natural_eq:
  "natural a \<Longrightarrow> Norm a = s \<Longrightarrow> a = \<lparr>Norm = s, Sign = 1, Decimals = 0, Len = int (length s)\<rparr>"
  by (simp add: natural_def)

lemma Sub_natural:
  assumes "natural a" "natural b" "val b \<le> val a"
  shows "natural (Sub f a b) \<and> val (Sub f a b) = val a - val b"
proof -
  from assms(1,2) have sg: "Sign a = 1" "Sign b = 1" and d: "Decimals a = 0" "Decimals b = 0"
    by (simp_all add: natural_def)
  from assms(1,2) have nn: "0 \<le> val a" "0 \<le> val b"
    by (simp_all add: natural_def val_def dec_val_nonneg)
  note za = natural_zero_iff [OF assms(1)]
  note zb = natural_zero_iff [OF assms(2)]
  show ?thesis
  proof (cases "IsInt64 a 0")
    case True
    with za have "val a = 0" by simp
    with assms(3) nn have vb: "val b = 0" by simp
    with zb have ib: "IsInt64 b 0" by simp
    have "b\<lparr>Sign := 1\<rparr> = b" using sg by simp
    then have "SetSign b (- 1) = b" using ib by (simp add: SetSign.simps Let_def)
    with True assms(2) vb \<open>val a = 0\<close> show ?thesis by (simp add: Sub_def Neg_def sg)
  next
    case na: False
    show ?thesis
    proof (cases "IsInt64 b 0")
      case True
      with zb have "val b = 0" by simp
      with na True assms(1) show ?thesis by (simp add: Sub_def)
    next
      case nb: False
      have cmp: "CompareAbs a b = (if val a < val b then - 1 else if val a > val b then 1 else 0)"
        unfolding CompareAbs_def by (rule compare_natural [OF assms(1,2)])
      show ?thesis
      proof (cases "val a = val b")
        case True
        have "SetDecimals (SetInt64 f 0) 0 = \<lparr>Norm = ''0'', Sign = 1, Decimals = 0, Len = 1\<rparr>"
          by (simp add: SetInt64_0 SetDecimals.simps SetSign_1)
        with na nb sg d cmp True natural_zero show ?thesis
          by (simp add: Sub_def Let_def maxInt_def val_def digit_val_def)
      next
        case False
        with assms(3) have gt: "val b < val a" by simp
        have ab: "Abs (Copy a) = a" "Abs (Copy b) = b"
          using sg by (simp_all add: Abs_def Copy_def SetSign_1)
        have "Sub f a b = SetSign (sub a b) 1"
          using na nb sg cmp gt by (simp add: Sub_def Let_def ab)
        also have "\<dots> = sub a b"
          using sub_natural(1) [OF assms] by (simp add: SetSign_1 natural_def)
        finally show ?thesis using sub_natural [OF assms] by simp
      qed
    qed
  qed
qed

lemma Compare_natural:
  "natural a \<Longrightarrow> natural b \<Longrightarrow> Compare a b = 1 \<longleftrightarrow> val b < val a"
  by (simp add: Compare_def compare_natural)

lemma partial_product_unfold:
  "partial_product aStr b bd =
    (let (overflow, cBuf) = foldl (pp_step (Norm b ! bd) aStr) (0, []) (rev [0 ..< length aStr])
     in \<lparr>sp_offset = Len b - int bd - 1,
          sp_product = (if overflow \<noteq> 0 then cBuf @ [overflow] else cBuf)\<rparr>)"
  by (simp add: partial_product_def pp_step_def)

lemma divmod10_nonneg: "0 \<le> a \<Longrightarrow> divmod10 a = (a div 10, a mod 10)"
  by (simp add: divmod10_def rem_def quo_nonneg) (simp add: minus_mult_div_eq_mod)

lemma mul_digits:
  assumes "IsDigit c" "IsDigit d"
  shows "mul c d = digit_val c * digit_val d"
proof -
  from digit_val_range [OF assms(1)] digit_val_range [OF assms(2)]
  have r: "0 \<le> digit_val c" "digit_val c \<le> 9" "0 \<le> digit_val d" "digit_val d \<le> 9" by simp_all
  then have "0 \<le> digit_val c * digit_val d" by simp
  moreover from r have "digit_val c * digit_val d \<le> 9 * 9" by (intro mult_mono) simp_all
  ultimately have "(digit_val c * digit_val d) mod 256 = digit_val c * digit_val d" by simp
  then show ?thesis by (simp add: mul_def digit_val_def)
qed

lemma foldl_rev_upt:
  "foldl f z (rev [0 ..< n]) = foldl (\<lambda>s j. f s (n - 1 - j)) z [0 ..< n]"
proof -
  have "rev [0 ..< n] = map (\<lambda>j. n - 1 - j) [0 ..< n]"
    by (rule nth_equalityI) (simp_all add: rev_nth)
  then show ?thesis by (simp add: foldl_map)
qed

lemma pp_fold:
  fixes k :: int
  assumes dg: "list_all IsDigit aStr" and c: "IsDigit c" "digit_val c = k"
  defines "n \<equiv> length aStr"
  shows "m \<le> n \<Longrightarrow> \<exists>overflow cBuf.
      foldl (\<lambda>s j. pp_step c aStr s (n - 1 - j)) (0, []) [0 ..< m] = (overflow, cBuf) \<and>
      length cBuf = m \<and> small cBuf \<and> 0 \<le> overflow \<and> overflow \<le> 8 \<and>
      le_num cBuf + overflow * 10 ^ m = k * le_num (take m (digits_le aStr n))"
proof (induction m)
  case 0
  then show ?case by (simp add: small_def)
next
  case (Suc m)
  then obtain ov cb where ih:
      "foldl (\<lambda>s j. pp_step c aStr s (n - 1 - j)) (0, []) [0 ..< m] = (ov, cb)"
      "length cb = m" "small cb" "0 \<le> ov" "ov \<le> 8"
      "le_num cb + ov * 10 ^ m = k * le_num (take m (digits_le aStr n))"
    by auto
  from Suc.prems have m: "m < n" by simp
  define x where "x = dig aStr m"
  have xd: "IsDigit (aStr ! (n - Suc m))" using dg m
    by (simp add: list_all_length n_def)
  have xv: "digit_val (aStr ! (n - Suc m)) = x"
    using m by (simp add: x_def dig_def rev_nth n_def)
  from digit_val_range [OF xd] have x9: "0 \<le> x" "x \<le> 9" unfolding xv by simp_all
  from digit_val_range [OF c(1)] c(2) have k9: "0 \<le> k" "k \<le> 9" by simp_all
  define t where "t = k * x + ov"
  have "k * x \<le> 9 * 9" using k9 x9 by (intro mult_mono) simp_all
  then have t: "0 \<le> t" "t \<le> 89" using k9 x9 ih(4,5) by (simp_all add: t_def)
  have st: "pp_step c aStr (ov, cb) (n - 1 - m) = (t div 10, cb @ [t mod 10])"
    unfolding pp_step_def using t
    by (simp add: Let_def mul_digits [OF c(1) xd] xv c(2) t_def [symmetric] divmod10_nonneg)
  have tk: "le_num (take (Suc m) (digits_le aStr n)) = le_num (take m (digits_le aStr n)) + x * 10 ^ m"
    using m by (simp add: le_num_take_Suc x_def)
  obtain q r where qr: "q = t div 10" "r = t mod 10" by simp
  then have tqr: "t = r + 10 * q" by simp
  have "le_num (cb @ [r]) + q * 10 ^ Suc m = le_num cb + t * 10 ^ m"
    unfolding tqr by (simp add: le_num_snoc ih(2) algebra_simps)
  then have "le_num (cb @ [t mod 10]) + (t div 10) * 10 ^ Suc m = le_num cb + t * 10 ^ m"
    unfolding qr .
  also have "\<dots> = (le_num cb + ov * 10 ^ m) + k * x * 10 ^ m" by (simp add: t_def algebra_simps)
  also have "\<dots> = k * le_num (take (Suc m) (digits_le aStr n))"
    unfolding ih(6) tk by (simp add: algebra_simps)
  finally have inv: "le_num (cb @ [t mod 10]) + (t div 10) * 10 ^ Suc m =
      k * le_num (take (Suc m) (digits_le aStr n))" .
  have "foldl (\<lambda>s j. pp_step c aStr s (n - 1 - j)) (0, []) [0 ..< Suc m] =
      (t div 10, cb @ [t mod 10])"
    using ih(1) st by simp
  moreover have "small (cb @ [t mod 10])" using ih(3) by (simp add: small_def)
  moreover have "0 \<le> t div 10" "t div 10 \<le> 8" using t by simp_all
  ultimately show ?case using inv ih(2)
    by (intro exI [of _ "t div 10"] exI [of _ "cb @ [t mod 10]"]) simp
qed

lemma partial_product_digit:
  assumes "natural a" and c: "IsDigit c" "digit_val c = k" and b: "Norm b = [c]" "Len b = 1"
  shows "\<exists>p. partial_product (Norm a) b 0 = \<lparr>sp_offset = 0, sp_product = p\<rparr> \<and> small p \<and>
      le_num p = k * val a \<and> length p \<le> length (Norm a) + 1"
proof -
  define n where "n = length (Norm a)"
  from assms(1) have dg: "list_all IsDigit (Norm a)" by (simp add: natural_def)
  from pp_fold [OF dg c, of n] obtain ov cb where f:
      "foldl (\<lambda>s j. pp_step c (Norm a) s (n - 1 - j)) (0, []) [0 ..< n] = (ov, cb)"
      "length cb = n" "small cb" "0 \<le> ov" "ov \<le> 8"
      "le_num cb + ov * 10 ^ n = k * val a"
    by (auto simp: n_def le_num_digits_le val_def)
  define p where "p = (if ov \<noteq> 0 then cb @ [ov] else cb)"
  have "partial_product (Norm a) b 0 = \<lparr>sp_offset = 0, sp_product = p\<rparr>"
    unfolding partial_product_unfold foldl_rev_upt n_def [symmetric]
    using f(1) b by (simp add: p_def)
  moreover have "small p" using f(3,4,5) by (simp add: p_def small_def)
  moreover have "le_num p = k * val a" using f(6,2) by (cases "ov = 0") (simp_all add: p_def le_num_snoc)
  moreover have "length p \<le> length (Norm a) + 1" using f(2) by (simp add: p_def n_def)
  ultimately show ?thesis by blast
qed

lemma one0: "SetDecimals (SetInt64 BigFloat0 1) 0 = \<lparr>Norm = ''1'', Sign = 1, Decimals = 0, Len = 1\<rparr>"
  by code_simp

lemma mone0: "SetDecimals (SetInt64 BigFloat0 (- 1)) 0 = \<lparr>Norm = ''1'', Sign = - 1, Decimals = 0, Len = 1\<rparr>"
  by code_simp

lemma IsInt64_1:
  "Decimals f = 0 \<Longrightarrow> IsInt64 f 1 \<longleftrightarrow> Sign f = 1 \<and> Len f = 1 \<and> Norm f = ''1''"
  by (simp add: IsInt64.simps [of f 1] one0)

lemma IsInt64_m1:
  "Decimals f = 0 \<Longrightarrow> IsInt64 f (- 1) \<longleftrightarrow> Sign f = - 1 \<and> Len f = 1 \<and> Norm f = ''1''"
  by (simp add: IsInt64.simps [of f "- 1"] mone0)

lemma col_fold:
  assumes "small p" "length p \<le> L"
  defines "pz \<equiv> p @ replicate (L - length p) 0"
  shows "m \<le> L \<Longrightarrow> foldl (col_step p) (0, []) [0 ..< m] = (0, map char_of (take m pz))"
proof (induction m)
  case 0
  then show ?case by simp
next
  case (Suc m)
  then have m: "m < L" and ih: "foldl (col_step p) (0, []) [0 ..< m] = (0, map char_of (take m pz))"
    by simp_all
  have lz: "length pz = L" using assms(2) by (simp add: pz_def)
  have sz: "small pz" using assms(1) by (simp add: pz_def small_def list_all_length nth_append)
  then have r: "0 \<le> pz ! m" "pz ! m \<le> 9" using m lz by (simp_all add: small_def list_all_length)
  have e: "(if m < length p then 0 + p ! m else 0) = pz ! m"
    using m by (simp add: pz_def nth_append)
  have d: "divmod10 (pz ! m) = (0, pz ! m)" using r by (simp add: divmod10_nonneg)
  have "col_step p (0, map char_of (take m pz)) m = (0, map char_of (take m pz) @ [char_of (pz ! m)])"
    unfolding col_step_def split Let_def e d by simp
  moreover have "take (Suc m) pz = take m pz @ [pz ! m]"
    using m lz by (simp add: take_Suc_conv_app_nth)
  ultimately show ?case using ih by simp
qed

lemma Mul_single:
  assumes ns: "\<not> IsInt64 a 0" "\<not> IsInt64 b 0" "\<not> IsInt64 a 1" "\<not> IsInt64 a (- 1)"
      "\<not> IsInt64 b 1" "\<not> IsInt64 b (- 1)"
    and b: "Norm b = [c]" "c \<noteq> CHR ''0''" "Len b = 1" "Decimals b = 0"
    and a: "Decimals a = 0" "Len a = int (length (Norm a))"
    and p: "partial_product (Norm a) b 0 = \<lparr>sp_offset = 0, sp_product = p\<rparr>" "small p"
      "length p \<le> length (Norm a) + 1"
  defines "t \<equiv> to_buffer (p @ replicate (length (Norm a) + 1 - length p) 0 @ [0])"
  shows "Mul f a b = \<lparr>Norm = t, Sign = Sign a * Sign b, Decimals = 0, Len = int (length t)\<rparr>"
proof -
  define L where "L = length (Norm a) + 1"
  define pz where "pz = p @ replicate (L - length p) 0"
  have nl: "nat (Len a + Len b) = L" using a b by (simp add: L_def)
  from col_fold [OF p(2), of L L] p(3)
  have cf: "foldl (col_step p) (0, []) [0 ..< L] = (0, map char_of pz)"
    by (simp add: L_def pz_def)
  have "Mul f a b = (case foldl (col_step p) (0, []) [0 ..< L] of (overflow, buf) \<Rightarrow>
      \<lparr>Norm = add_bytes (trim_leading (reverse (buf @ [char_of overflow])) 0) 48,
       Sign = Sign a * Sign b, Decimals = 0,
       Len = int (length (add_bytes (trim_leading (reverse (buf @ [char_of overflow])) 0) 48))\<rparr>)"
    using ns b a nl by (simp add: Mul_def Let_def p(1) col_step_def cong: if_cong)
  also have "\<dots> = \<lparr>Norm = t, Sign = Sign a * Sign b, Decimals = 0, Len = int (length t)\<rparr>"
    unfolding cf by (simp add: t_def to_buffer_def pz_def L_def)
  finally show ?thesis .
qed

lemma digit_consts:
  "SetInt64 BigFloat0 2 = \<lparr>Norm = ''2'', Sign = 1, Decimals = 0, Len = 1\<rparr> \<and> FormatInt 2 = ''2'' \<and> IsDigit (CHR ''2'') \<and> digit_val (CHR ''2'') = 2"
  "SetInt64 BigFloat0 3 = \<lparr>Norm = ''3'', Sign = 1, Decimals = 0, Len = 1\<rparr> \<and> FormatInt 3 = ''3'' \<and> IsDigit (CHR ''3'') \<and> digit_val (CHR ''3'') = 3"
  "SetInt64 BigFloat0 4 = \<lparr>Norm = ''4'', Sign = 1, Decimals = 0, Len = 1\<rparr> \<and> FormatInt 4 = ''4'' \<and> IsDigit (CHR ''4'') \<and> digit_val (CHR ''4'') = 4"
  "SetInt64 BigFloat0 5 = \<lparr>Norm = ''5'', Sign = 1, Decimals = 0, Len = 1\<rparr> \<and> FormatInt 5 = ''5'' \<and> IsDigit (CHR ''5'') \<and> digit_val (CHR ''5'') = 5"
  "SetInt64 BigFloat0 6 = \<lparr>Norm = ''6'', Sign = 1, Decimals = 0, Len = 1\<rparr> \<and> FormatInt 6 = ''6'' \<and> IsDigit (CHR ''6'') \<and> digit_val (CHR ''6'') = 6"
  "SetInt64 BigFloat0 7 = \<lparr>Norm = ''7'', Sign = 1, Decimals = 0, Len = 1\<rparr> \<and> FormatInt 7 = ''7'' \<and> IsDigit (CHR ''7'') \<and> digit_val (CHR ''7'') = 7"
  "SetInt64 BigFloat0 8 = \<lparr>Norm = ''8'', Sign = 1, Decimals = 0, Len = 1\<rparr> \<and> FormatInt 8 = ''8'' \<and> IsDigit (CHR ''8'') \<and> digit_val (CHR ''8'') = 8"
  "SetInt64 BigFloat0 9 = \<lparr>Norm = ''9'', Sign = 1, Decimals = 0, Len = 1\<rparr> \<and> FormatInt 9 = ''9'' \<and> IsDigit (CHR ''9'') \<and> digit_val (CHR ''9'') = 9"
  by code_simp+

lemma SetInt64_digit:
  assumes "2 \<le> k" "k \<le> 9"
  shows "\<exists>c. SetInt64 BigFloat0 k = \<lparr>Norm = [c], Sign = 1, Decimals = 0, Len = 1\<rparr> \<and>
      FormatInt k = [c] \<and> IsDigit c \<and> digit_val c = k"
proof -
  from assms have "k = 2 \<or> k = 3 \<or> k = 4 \<or> k = 5 \<or> k = 6 \<or> k = 7 \<or> k = 8 \<or> k = 9" by arith
  then show ?thesis using digit_consts by (elim disjE) blast+
qed

lemma ten_consts: "FormatInt 10 = ''10''" "TrimRight0 ''10'' = ''1''"
  by code_simp+

lemma MulInt64_natural:
  assumes b: "natural b" "1 \<le> val b" and k: "2 \<le> k" "k \<le> 10"
  shows "natural (MulInt64 b k) \<and> val (MulInt64 b k) = k * val b"
proof (cases "k = 10")
  case True
  from b have f: "Sign b = 1" "Decimals b = 0" "Len b = int (length (Norm b))"
    and dg: "list_all IsDigit (Norm b)" and ne: "Norm b \<noteq> []"
    and hd0: "hd (Norm b) \<noteq> CHR ''0'' \<or> Norm b = ''0''"
    by (simp_all add: natural_def)
  from b(2) natural_zero_iff(1) [OF b(1)] have "Norm b \<noteq> ''0''" by auto
  with hd0 have hd: "hd (Norm b) \<noteq> CHR ''0''" by simp
  have m10: "MulInt64 b 10 = Mul10 b 1"
    by (simp add: MulInt64_def ten_consts Let_def)
  have dw: "dropWhile (\<lambda>c. c = CHR ''0'') (Norm b @ replicate (nat (1 - Decimals b)) (CHR ''0''))
      = Norm b @ ''0''"
    using hd ne f(2) by (cases "Norm b") simp_all
  have "Mul10 b 1 = b\<lparr>Norm := Norm b @ ''0'', Len := int (length (Norm b @ ''0'')), Decimals := 0\<rparr>"
    using Mul10_append [of b 1] f dw by simp
  then have r: "MulInt64 b k = b\<lparr>Norm := Norm b @ ''0'', Len := int (length (Norm b @ ''0'')), Decimals := 0\<rparr>"
    using m10 True by simp
  have "natural (MulInt64 b k)"
    unfolding r natural_def using f dg ne hd by (simp add: hd_append)
  moreover have "val (MulInt64 b k) = k * val b"
    unfolding r val_def using True by (simp add: digit_val_zero)
  ultimately show ?thesis ..
next
  case False
  with k have k9: "2 \<le> k" "k \<le> 9" by simp_all
  from SetInt64_digit [OF k9] obtain c where c:
      "SetInt64 BigFloat0 k = \<lparr>Norm = [c], Sign = 1, Decimals = 0, Len = 1\<rparr>"
      "FormatInt k = [c]" "IsDigit c" "digit_val c = k"
    by blast
  define n where "n = \<lparr>Norm = [c], Sign = 1, Decimals = 0, Len = 1\<rparr>"
  from c(4) k9 have c0: "c \<noteq> CHR ''0''" "c \<noteq> CHR ''1''"
    by (auto simp: digit_val_def)
  have nn: "natural n" using c(3) c0 by (simp add: n_def natural_def)
  have vn: "val n = k" by (simp add: n_def val_def c(4))
  have mi: "MulInt64 b k = Mul b b n"
    using k9 c0 by (simp add: MulInt64_def c(1,2) Let_def TrimRight0_def n_def)
  from b have f: "Sign b = 1" "Decimals b = 0" "Len b = int (length (Norm b))"
    by (simp_all add: natural_def)
  have z: "\<not> IsInt64 b 0" "\<not> IsInt64 n 0"
    using b(2) natural_zero_iff [OF b(1)] natural_zero_iff [OF nn] vn k9 by auto
  have o: "\<not> IsInt64 b (- 1)" "\<not> IsInt64 n 1" "\<not> IsInt64 n (- 1)"
    using f c0 by (simp_all add: IsInt64_m1 IsInt64_1 n_def)
  show ?thesis
  proof (cases "IsInt64 b 1")
    case True
    then have "Norm b = ''1''" using f by (simp add: IsInt64_1)
    then have "val b = 1" by (simp add: val_def digit_val_def)
    moreover have "Mul b b n = n" using True z by (simp add: Mul_def)
    ultimately show ?thesis using nn vn mi by simp
  next
    case b1: False
    from partial_product_digit [OF b(1) c(3,4), of n] obtain p where p:
        "partial_product (Norm b) n 0 = \<lparr>sp_offset = 0, sp_product = p\<rparr>" "small p"
        "le_num p = k * val b" "length p \<le> length (Norm b) + 1"
      by (auto simp: n_def)
    define ds where "ds = p @ replicate (length (Norm b) + 1 - length p) 0 @ [0]"
    have m: "Mul b b n = \<lparr>Norm = to_buffer ds, Sign = Sign b * Sign n, Decimals = 0,
        Len = int (length (to_buffer ds))\<rparr>"
      unfolding ds_def
      by (rule Mul_single [OF z(1) z(2) b1 o(1) o(2) o(3) _ c0(1) _ _ f(2) f(3) p(1) p(2) p(4)])
         (simp_all add: n_def)
    have sd: "small ds" "ds \<noteq> []" using p(2) by (auto simp: ds_def small_def list_all_iff)
    have ld: "le_num ds = k * val b" by (simp add: ds_def le_num_append p(3))
    note tb = to_buffer_natural [OF sd]
    have "natural (Mul b b n)" unfolding m natural_def using tb f by (simp add: n_def)
    moreover have "val (Mul b b n) = k * val b"
    proof -
      have "val (Mul b b n) = dec_val (to_buffer ds)" unfolding m by (simp add: val_def)
      then show ?thesis using tb(4) ld by simp
    qed
    ultimately show ?thesis using mi by simp
  qed
qed

subsection \<open>The quotient digit\<close>

lemma guess_bounds:
  fixes D B P :: int
  assumes D: "0 \<le> D" "D < 10 * B" and B: "0 < B" and P: "0 < P"
    and big: "P = 1 \<or> 10 \<le> B div P"
  shows "D div B \<le> 9" "D div B \<le> (D div P) div (B div P)"
    "(D div P) div (B div P) \<le> D div B + 1" "0 \<le> (D div P) div (B div P)"
proof -
  define q where "q = D div B"
  define r where "r = D mod B"
  define B' where "B' = B div P"
  define b0 where "b0 = B mod P"
  define A' where "A' = D div P"
  define a0 where "a0 = D mod P"
  define g where "g = A' div B'"
  define r' where "r' = A' mod B'"
  have B'pos: "0 < B'"
  proof (cases "P = 1")
    case True
    then show ?thesis using B by (simp add: B'_def)
  next
    case False
    with big show ?thesis by (simp add: B'_def)
  qed
  have f1: "D = B * q + r" "0 \<le> r" "r < B" using B by (simp_all add: q_def r_def)
  have f2: "B = P * B' + b0" "0 \<le> b0" "b0 < P" using P by (simp_all add: B'_def b0_def)
  have f3: "D = P * A' + a0" "0 \<le> a0" "a0 < P" using P by (simp_all add: A'_def a0_def)
  have f4: "A' = B' * g + r'" "0 \<le> r'" "r' < B'" using B'pos by (simp_all add: g_def r'_def)
  have q0: "0 \<le> q" using D(1) B by (simp add: q_def pos_imp_zdiv_nonneg_iff)
  have A0: "0 \<le> A'" using D(1) P by (simp add: A'_def pos_imp_zdiv_nonneg_iff)
  have g0: "0 \<le> g" using A0 B'pos by (simp add: g_def pos_imp_zdiv_nonneg_iff)
  have q9: "q \<le> 9"
  proof (rule ccontr)
    assume "\<not> q \<le> 9"
    then have "10 \<le> q" by simp
    then have "B * 10 \<le> B * q" using B by (intro mult_left_mono) simp_all
    with f1 D(2) show False by linarith
  qed
  have qg: "q \<le> g"
  proof (rule ccontr)
    assume "\<not> q \<le> g"
    then have "g + 1 \<le> q" by simp
    then have "B' * (g + 1) \<le> B' * q" using B'pos by (intro mult_left_mono) simp_all
    with f4 have "A' + 1 \<le> B' * q" by (simp add: algebra_simps)
    then have "P * (A' + 1) \<le> P * (B' * q)" using P by (intro mult_left_mono) simp_all
    with f3 have 1: "D < P * (B' * q)" by (simp add: algebra_simps)
    have "0 \<le> b0 * q" using f2(2) q0 by simp
    moreover have "B * q = (P * B' + b0) * q" by (simp only: f2(1) [symmetric])
    ultimately have "P * (B' * q) \<le> B * q" by (simp add: algebra_simps)
    with 1 f1 show False by linarith
  qed
  have gq: "g \<le> q + 1"
  proof (rule ccontr)
    assume "\<not> g \<le> q + 1"
    then have "q + 2 \<le> g" by simp
    then have "B' * (q + 2) \<le> B' * g" using B'pos by (intro mult_left_mono) simp_all
    with f4 have "B' * (q + 2) \<le> A'" by linarith
    then have "P * (B' * (q + 2)) \<le> P * A'" using P by (intro mult_left_mono) simp_all
    with f3 have 1: "P * (B' * (q + 2)) \<le> D" by linarith
    have 2: "D < B * (q + 1)" using f1 by (simp add: algebra_simps)
    show False
    proof (cases "P = 1")
      case True
      then have "B' = B" by (simp add: B'_def)
      with 1 2 True have "B * (q + 2) < B * (q + 1)" by simp
      then show False using B by (simp add: mult_less_cancel_left_pos)
    next
      case False
      with big have b10: "10 \<le> B'" by (simp add: B'_def)
      have "B \<le> P * B' + P - 1" using f2 by linarith
      then have "B * (q + 1) \<le> (P * B' + P - 1) * (q + 1)"
        using q0 by (intro mult_right_mono) simp_all
      also have "\<dots> \<le> P * ((B' + 1) * (q + 1))" using q0 by (simp add: algebra_simps)
      finally have "P * (B' * (q + 2)) < P * ((B' + 1) * (q + 1))" using 1 2 by linarith
      then have "B' * (q + 2) < (B' + 1) * (q + 1)" using P by (simp add: mult_less_cancel_left_pos)
      then have "B' < q + 1" by (simp add: algebra_simps)
      with b10 q9 show False by linarith
    qed
  qed
  show "D div B \<le> 9" using q9 by (simp add: q_def)
  show "D div B \<le> (D div P) div (B div P)" using qg by (simp add: q_def g_def A'_def B'_def)
  show "(D div P) div (B div P) \<le> D div B + 1" using gq by (simp add: q_def g_def A'_def B'_def)
  show "0 \<le> (D div P) div (B div P)" using g0 by (simp add: g_def A'_def B'_def)
qed

lemma dec_val_take:
  assumes "list_all IsDigit s" "k \<le> length s"
  shows "dec_val (take (length s - k) s) = dec_val s div 10 ^ k"
proof -
  define m where "m = length s - k"
  have ld: "length (drop m s) = k" using assms(2) by (simp add: m_def)
  have dd: "list_all IsDigit (drop m s)" using assms(1) by (auto simp: list_all_iff dest: in_set_dropD)
  from dec_val_nonneg [OF dd] dec_val_bound [OF dd] ld
  have r: "0 \<le> dec_val (drop m s)" "dec_val (drop m s) < 10 ^ k" by simp_all
  have "dec_val s = dec_val (take m s @ drop m s)" by simp
  also have "\<dots> = dec_val (take m s) * 10 ^ k + dec_val (drop m s)"
    unfolding dec_val_append ld ..
  finally have "dec_val s div 10 ^ k = (dec_val (drop m s) + dec_val (take m s) * 10 ^ k) div 10 ^ k"
    by (simp add: add.commute)
  also have "\<dots> = dec_val (take m s)" using r by simp
  finally show ?thesis by (simp add: m_def)
qed

lemma Atoi_digits:
  assumes "list_all IsDigit s" "s \<noteq> []" "length s \<le> 18"
  shows "Atoi s = dec_val s"
proof -
  from assms obtain c t where s: "s = c # t" and c: "IsDigit c" by (cases s) auto
  from c have nc: "c \<noteq> CHR ''-''" "c \<noteq> CHR ''+''" by (auto simp: IsDigit_def)
  have "dec_val s < 10 ^ length s" by (rule dec_val_bound [OF assms(1)])
  also have "\<dots> \<le> (10::int) ^ 18" using assms(3) by (intro power_increasing) simp_all
  finally have "dec_val s \<le> 2 ^ 63 - 1" by simp
  with assms(1) nc show ?thesis by (simp add: Atoi_def s Let_def)
qed

lemma canonical_natural:
  "canonical D \<Longrightarrow> D \<noteq> [] \<Longrightarrow>
     natural \<lparr>Norm = D, Sign = 1, Decimals = 0, Len = int (length D)\<rparr>"
  by (auto simp: canonical_def natural_def)

lemma natural_canonical: "natural r \<Longrightarrow> canonical (Norm r) \<and> Norm r \<noteq> []"
  by (auto simp: canonical_def natural_def)

lemma div_mod_facts:
  fixes D B :: int
  assumes "0 < B"
  shows "(D div B) * B \<le> D" "D < (D div B + 1) * B"
proof -
  have e: "(D div B) * B = D - D mod B" by (simp add: minus_mod_eq_div_mult)
  have m: "0 \<le> D mod B" "D mod B < B" using assms by simp_all
  show "(D div B) * B \<le> D" using e m by linarith
  have "(D div B + 1) * B = (D div B) * B + B" by (simp add: algebra_simps)
  then show "D < (D div B + 1) * B" using e m by linarith
qed

lemma fix_digit_correct:
  assumes b: "natural bC" "1 \<le> val bC" and D: "canonical D" "D \<noteq> []"
    and g: "g = dec_val D div val bC \<or> g = dec_val D div val bC + 1" "1 \<le> g" "g \<le> 10"
    and q9: "dec_val D div val bC \<le> 9"
  shows "\<exists>r. fix_digit bC D g = (dec_val D div val bC, r, Norm r) \<and> natural r \<and>
      val r = dec_val D - (dec_val D div val bC) * val bC"
proof -
  define B where "B = val bC"
  define q where "q = dec_val D div B"
  define rm0 where "rm0 = \<lparr>Norm = D, Sign = 1, Decimals = 0, Len = int (length D)\<rparr>"
  define fP1 where "fP1 = (if g > 1 then MulInt64 bC g else bC)"
  have Bp: "0 < B" using b(2) by (simp add: B_def)
  have nr: "natural rm0" unfolding rm0_def by (rule canonical_natural [OF D])
  have vr: "val rm0 = dec_val D" by (simp add: rm0_def val_def)
  have D0: "0 \<le> dec_val D" using D(1) by (simp add: canonical_def dec_val_nonneg)
  have q0: "0 \<le> q" using D0 Bp by (simp add: q_def pos_imp_zdiv_nonneg_iff)
  from div_mod_facts [OF Bp, of "dec_val D"]
  have qb: "q * B \<le> dec_val D" "dec_val D < (q + 1) * B" by (simp_all add: q_def)
  have p1: "natural fP1 \<and> val fP1 = g * B"
  proof (cases "g > 1")
    case True
    then have "2 \<le> g" by simp
    from MulInt64_natural [OF b this g(3)] True show ?thesis by (simp add: fP1_def B_def)
  next
    case False
    with g(2) have "g = 1" by simp
    then show ?thesis using b(1) by (simp add: fP1_def B_def)
  qed
  have fx: "Compare fP1 rm0 = 1 \<longleftrightarrow> g = q + 1"
  proof -
    have "Compare fP1 rm0 = 1 \<longleftrightarrow> dec_val D < g * B"
      using p1 nr by (simp add: Compare_natural vr)
    also have "\<dots> \<longleftrightarrow> g = q + 1"
      using g(1) qb by (auto simp: q_def [symmetric] B_def [symmetric])
    finally show ?thesis .
  qed
  define fP2 where "fP2 = (if Compare fP1 rm0 = 1 then Sub fP1 fP1 bC else fP1)"
  define d where "d = (if Compare fP1 rm0 = 1 then (of_char (char_of (g - 1) :: char) :: int) else g)"
  have dq: "d = q"
  proof (cases "g = q + 1")
    case True
    then have "g - 1 = q" by simp
    moreover have "q mod 256 = q" using q0 q9 by (simp add: q_def B_def)
    ultimately show ?thesis using fx True by (simp add: d_def)
  next
    case False
    with g(1) have "g = q" by (simp add: q_def B_def)
    with fx False show ?thesis by (simp add: d_def)
  qed
  have p2: "natural fP2 \<and> val fP2 = q * B"
  proof (cases "g = q + 1")
    case True
    have "val bC \<le> val fP1" using p1 g(2) Bp by (simp add: B_def [symmetric])
    from Sub_natural [OF conjunct1 [OF p1] b(1) this, of fP1] p1 True fx
    show ?thesis by (simp add: fP2_def B_def [symmetric] algebra_simps)
  next
    case False
    with g(1) have "g = q" by (simp add: q_def B_def)
    with fx p1 show ?thesis by (simp add: fP2_def)
  qed
  define r where "r = Sub rm0 rm0 fP2"
  have "val fP2 \<le> val rm0" using p2 qb(1) vr by simp
  from Sub_natural [OF nr conjunct1 [OF p2] this, of rm0] p2 vr
  have r: "natural r" "val r = dec_val D - q * B" by (simp_all add: r_def)
  have "fix_digit bC D g = (d, r, Norm r)"
    by (simp add: fix_digit_def Let_def Copy_def r_def fP2_def d_def fP1_def rm0_def)
  then show ?thesis using r dq by (auto simp: q_def B_def)
qed

lemma canonical_length:
  assumes "canonical D" "dec_val D < 10 ^ n" "0 < n"
  shows "length D \<le> n"
proof (cases "D = [] \<or> D = ''0''")
  case True
  then show ?thesis using assms(3) by auto
next
  case False
  with assms(1) have "list_all IsDigit D" "D \<noteq> []" "hd D \<noteq> CHR ''0''"
    by (auto simp: canonical_def)
  from dec_val_lower [OF this] assms(2) have "(10::int) ^ (length D - 1) < 10 ^ n" by linarith
  then have "length D - 1 < n" by simp
  then show ?thesis by simp
qed

lemma quotient_digit_correct:
  assumes e: "env_ok e" and D: "canonical (d_divPart s)" "d_divPart s \<noteq> []"
    and lt: "dec_val (d_divPart s) < 10 * val (e_bCopy e)"
  defines "q \<equiv> dec_val (d_divPart s) div val (e_bCopy e)"
  shows "\<exists>g t. guess_digit e (d_divPart s) = Inr g \<and> (g = q \<or> g = q + 1) \<and>
      quotient_digit e s = Inr (t, q) \<and> 0 \<le> q \<and> q \<le> 9 \<and>
      canonical (d_divPart t) \<and> d_divPart t \<noteq> [] \<and>
      dec_val (d_divPart t) = dec_val (d_divPart s) - q * val (e_bCopy e) \<and>
      (if g > 0 then natural (d_remainder t) \<and> Norm (d_remainder t) = d_divPart t else t = s)"
proof -
  define bC where "bC = e_bCopy e"
  define B where "B = val bC"
  define N where "N = Norm bC"
  define nb where "nb = length N"
  define Dp where "Dp = d_divPart s"
  define A where "A = dec_val Dp"
  from e have b: "natural bC" "1 \<le> B"
    and cl: "e_cmpLen e = min 5 (Len bC)"
    and d2: "e_divPart2Int e = Atoi (take (nat (e_cmpLen e)) N)"
    by (simp_all add: env_ok_def bC_def B_def N_def)
  from b(1) have nN: "list_all IsDigit N" "N \<noteq> []" "Len bC = int nb"
    by (simp_all add: natural_def N_def nb_def)
  from b natural_zero_iff(1) [OF b(1)] have "N \<noteq> ''0''" by (auto simp: B_def N_def)
  with b(1) have hd: "hd N \<noteq> CHR ''0''" by (auto simp: natural_def N_def)
  have nb0: "0 < nb" using nN(2) by (simp add: nb_def)
  have Bp: "0 < B" using b(2) by simp
  have Blow: "10 ^ (nb - 1) \<le> B"
    using dec_val_lower [OF nN(1,2) hd] by (simp add: B_def val_def N_def nb_def)
  have Bup: "B < 10 ^ nb"
    using dec_val_bound [OF nN(1)] by (simp add: B_def val_def N_def nb_def)
  have dD: "list_all IsDigit Dp" using D(1) by (simp add: canonical_def Dp_def)
  have A0: "0 \<le> A" using dD by (simp add: A_def dec_val_nonneg)
  have lt': "A < 10 * B" using lt by (simp add: A_def Dp_def B_def bC_def)
  have q_def': "q = A div B" by (simp add: q_def A_def Dp_def B_def bC_def)
  have q0: "0 \<le> q" using A0 Bp by (simp add: q_def' pos_imp_zdiv_nonneg_iff)
  show ?thesis
  proof (cases "length Dp < nb")
    case True
    have "A < 10 ^ length Dp" using dec_val_bound [OF dD] by (simp add: A_def)
    also have "\<dots> \<le> (10::int) ^ (nb - 1)" using True by (intro power_increasing) simp_all
    finally have "A < B" using Blow by linarith
    then have qz: "q = 0" using A0 by (simp add: q_def')
    have g: "guess_digit e (d_divPart s) = Inr 0"
      using True nN(3) by (simp add: guess_digit_def Dp_def [symmetric] bC_def [symmetric])
    then have "quotient_digit e s = Inr (s, 0)" by (simp add: quotient_digit_def)
    with g qz D show ?thesis by simp
  next
    case False
    then have len: "nb \<le> length Dp" by simp
    define c where "c = min 5 nb"
    define k where "k = nb - c"
    have c1: "1 \<le> c" "c \<le> 5" "c \<le> nb" using nb0 by (simp_all add: c_def)
    have ce: "e_cmpLen e = int c" using cl nN(3) by (simp add: c_def)
    have kk: "k \<le> nb" "nb - k = c" using c1 by (simp_all add: k_def)
    define P :: int where "P = 10 ^ k"
    have Pp: "0 < P" by (simp add: P_def)
    \<comment> \<open>the divisor's prefix\<close>
    have tk: "list_all IsDigit (take c N)" "take c N \<noteq> []" "length (take c N) \<le> 18"
      "hd (take c N) = hd N"
      using nN(1,2) c1 by (auto simp: list_all_iff dest: in_set_takeD)
    have B': "e_divPart2Int e = B div P"
    proof -
      have "e_divPart2Int e = dec_val (take c N)"
        unfolding d2 ce using Atoi_digits [OF tk(1,2,3)] by simp
      also have "\<dots> = dec_val (take (length N - k) N)" using kk by (simp add: nb_def)
      also have "\<dots> = dec_val N div 10 ^ k"
        using kk by (intro dec_val_take [OF nN(1)]) (simp add: nb_def)
      finally show ?thesis by (simp add: B_def val_def N_def P_def)
    qed
    have big: "P = 1 \<or> 10 \<le> B div P"
    proof (cases "k = 0")
      case True
      then show ?thesis by (simp add: P_def)
    next
      case False
      then have c5: "c = 5" using c1 by (simp add: k_def c_def)
      have "length (take c N) = 5" using c5 c1 by (simp add: nb_def)
      with dec_val_lower [OF tk(1,2)] tk(4) hd have "10 ^ 4 \<le> dec_val (take c N)" by simp
      moreover have "dec_val (take c N) = B div P"
        using B' Atoi_digits [OF tk(1,2,3)] by (simp add: d2 ce)
      ultimately show ?thesis by simp
    qed
    have B'p: "0 < B div P"
      using big Bp by (cases "P = 1") auto
    \<comment> \<open>the prefix of \<open>divPart\<close>\<close>
    have "dec_val Dp < 10 ^ (nb + 1)" using lt' Bup by (simp add: A_def)
    moreover have "canonical Dp" using D(1) by (simp add: Dp_def)
    ultimately have lD: "length Dp \<le> nb + 1" by (intro canonical_length) simp_all
    define m where "m = length Dp - k"
    have mm: "nat (int (length Dp) - (int nb - e_cmpLen e)) = m"
      using len kk c1 by (simp add: ce m_def k_def)
    have m1: "1 \<le> m" "m \<le> 6" using len lD c1 by (simp_all add: m_def k_def)
    have tD: "list_all IsDigit (take m Dp)" "take m Dp \<noteq> []" "length (take m Dp) \<le> 18"
      using dD m1 D(2) by (auto simp: list_all_iff Dp_def dest: in_set_takeD)
    have A': "Atoi (take m Dp) = A div P"
    proof -
      have "Atoi (take m Dp) = dec_val (take (length Dp - k) Dp)"
        using Atoi_digits [OF tD] by (simp add: m_def)
      also have "\<dots> = dec_val Dp div 10 ^ k"
        using len kk by (intro dec_val_take [OF dD]) simp
      finally show ?thesis by (simp add: A_def P_def)
    qed
    define g where "g = (A div P) div (B div P)"
    from guess_bounds [OF A0 lt' Bp Pp big]
    have gb: "q \<le> 9" "q \<le> g" "g \<le> q + 1" "0 \<le> g" by (simp_all add: q_def' g_def)
    have A'0: "0 \<le> A div P" using A0 Pp by (simp add: pos_imp_zdiv_nonneg_iff)
    have "quo (A div P) (B div P) = g" using A'0 B'p by (simp add: quo_nonneg g_def)
    moreover have "g mod 256 = g" using gb by simp
    ultimately have gd: "guess_digit e (d_divPart s) = Inr g"
      using len B'p nN(3)
      by (simp add: guess_digit_def Dp_def [symmetric] bC_def [symmetric] mm A' B')
    have gq: "g = q \<or> g = q + 1" using gb by linarith
    show ?thesis
    proof (cases "g > 0")
      case True
      have "\<exists>r. fix_digit bC Dp g = (A div B, r, Norm r) \<and> natural r \<and>
          val r = A - (A div B) * B"
        unfolding A_def B_def
        using gq gb True D
        by (intro fix_digit_correct [OF b(1)]) (simp_all add: q_def' A_def B_def Dp_def b(2) [unfolded B_def])
      then obtain r where r: "fix_digit bC Dp g = (q, r, Norm r)" "natural r"
          "val r = A - q * B"
        by (auto simp: q_def')
      define t where "t = s\<lparr>d_divPart := Norm r, d_remainder := r, d_remShared := True\<rparr>"
      have "quotient_digit e s = Inr (t, q)"
        using True gd r(1) by (simp add: quotient_digit_def bC_def [symmetric] Dp_def [symmetric] t_def)
      moreover have "canonical (d_divPart t)" "d_divPart t \<noteq> []"
        using natural_canonical [OF r(2)] by (simp_all add: t_def)
      moreover have "dec_val (d_divPart t) = A - q * B" using r(3) by (simp add: t_def val_def)
      moreover have "natural (d_remainder t) \<and> Norm (d_remainder t) = d_divPart t"
        using r(2) by (simp add: t_def)
      ultimately show ?thesis using gd gq q0 gb(1) True
        by (intro exI [of _ g] exI [of _ t]) (simp add: A_def Dp_def B_def bC_def)
    next
      case False
      with gb have g0: "g = 0" "q = 0" using q0 by simp_all
      have "quotient_digit e s = Inr (s, 0)" using gd g0 by (simp add: quotient_digit_def)
      with gd g0 D show ?thesis by simp
    qed
  qed
qed

lemma next_digit_IsDigit:
  assumes "list_all IsDigit (e_aBuf e)" "0 \<le> d_i s"
  shows "IsDigit (next_digit e s)"
proof (cases "d_i s \<ge> int (length (e_aBuf e))")
  case True
  then show ?thesis by (simp add: next_digit_def)
next
  case False
  with assms(2) have "nat (d_i s) < length (e_aBuf e)" by simp
  with assms(1) have "IsDigit (e_aBuf e ! nat (d_i s))" by (simp add: list_all_length)
  with False show ?thesis by (simp add: next_digit_def)
qed

lemma advance_divPart:
  assumes D: "canonical (d_divPart s)" and c: "IsDigit c"
  shows "canonical (d_divPart (advance s c))" "d_divPart (advance s c) \<noteq> []"
    "dec_val (d_divPart (advance s c)) = 10 * dec_val (d_divPart s) + digit_val c"
proof -
  show "canonical (d_divPart (advance s c))"
    using D c by (cases "d_divPart s") (auto simp: advance_fields canonical_def)
  show "d_divPart (advance s c) \<noteq> []" by (simp add: advance_fields)
  show "dec_val (d_divPart (advance s c)) = 10 * dec_val (d_divPart s) + digit_val c"
    by (auto simp: advance_fields digit_val_zero)
qed

lemma emit_result:
  assumes "emit e t k = Continue s' \<or> emit e t k = Break s'" "0 \<le> k" "k \<le> 9"
    and "list_all (\<lambda>c. (of_char c :: int) \<le> 9) (d_result t)"
  shows "list_all (\<lambda>c. (of_char c :: int) \<le> 9) (d_result s')"
proof -
  have "(of_char (char_of k :: char) :: int) \<le> 9" using assms(2,3) by simp
  moreover have "(char_of (0::nat) :: char) = char_of (0::int)" by (simp add: char_of_def)
  then have "(of_char (char_of (0::nat) :: char) :: int) \<le> 9" by simp
  ultimately show ?thesis using assms(1,4)
    by (auto simp: emit_def Let_def split: if_splits)
qed

text \<open>The quotient digit of one iteration, from a state that satisfies the invariant.\<close>

lemma step_digit:
  assumes e: "env_ok e" and i: "step_inv e s"
  defines "t0 \<equiv> advance (s\<lparr>d_bDecimals := next_bDecimals e s\<rparr>) (next_digit e s)"
  defines "q \<equiv> dec_val (d_divPart t0) div val (e_bCopy e)"
  shows "\<exists>g t. guess_digit e (d_divPart t0) = Inr g \<and> (g = q \<or> g = q + 1) \<and>
      quotient_digit e t0 = Inr (t, q) \<and> 0 \<le> q \<and> q \<le> 9 \<and>
      canonical (d_divPart t) \<and> d_divPart t \<noteq> [] \<and>
      dec_val (d_divPart t) = dec_val (d_divPart t0) - q * val (e_bCopy e) \<and>
      0 \<le> dec_val (d_divPart t) \<and> dec_val (d_divPart t) < val (e_bCopy e) \<and>
      (if g > 0 then natural (d_remainder t) \<and> Norm (d_remainder t) = d_divPart t else t = t0)"
proof -
  define B where "B = val (e_bCopy e)"
  from e have Bp: "0 < B" and dg: "list_all IsDigit (e_aBuf e)" by (simp_all add: env_ok_def B_def)
  from i have D: "canonical (d_divPart s)" "dec_val (d_divPart s) < B" "0 \<le> d_i s"
    by (simp_all add: step_inv_def B_def)
  define s1 where "s1 = s\<lparr>d_bDecimals := next_bDecimals e s\<rparr>"
  have c: "IsDigit (next_digit e s)" by (rule next_digit_IsDigit [OF dg D(3)])
  have D1: "canonical (d_divPart s1)" using D(1) by (simp add: s1_def)
  note a = advance_divPart [OF D1 c]
  have t0: "t0 = advance s1 (next_digit e s)" by (simp add: t0_def s1_def)
  from digit_val_range [OF c] D(2) a(3)
  have lt: "dec_val (d_divPart t0) < 10 * B" by (simp add: t0 s1_def)
  from quotient_digit_correct [OF e a(1,2) [folded t0] lt [unfolded B_def]]
  obtain g t where r: "guess_digit e (d_divPart t0) = Inr g" "g = q \<or> g = q + 1"
      "quotient_digit e t0 = Inr (t, q)" "0 \<le> q" "q \<le> 9"
      "canonical (d_divPart t)" "d_divPart t \<noteq> []"
      "dec_val (d_divPart t) = dec_val (d_divPart t0) - q * B"
      "if g > 0 then natural (d_remainder t) \<and> Norm (d_remainder t) = d_divPart t else t = t0"
    unfolding q_def B_def by blast
  have "dec_val (d_divPart t) = dec_val (d_divPart t0) mod B"
    unfolding r(8) q_def B_def by (simp add: minus_div_mult_eq_mod)
  then have "0 \<le> dec_val (d_divPart t)" "dec_val (d_divPart t) < B" using Bp by simp_all
  with r show ?thesis unfolding B_def by blast
qed

lemma div_step_inv:
  assumes e: "env_ok e" and i: "step_inv e s"
    and st: "div_step e s = Continue s' \<or> div_step e s = Break s'"
  shows "step_inv e s'"
proof -
  define s1 where "s1 = s\<lparr>d_bDecimals := next_bDecimals e s\<rparr>"
  have i1: "step_inv e s1" using i by (simp add: step_inv_def s1_def)
  from div_step_cases [of e s, folded s1_def] st
  consider (tests) "s' = s1" | (rep) v where "s' = s1\<lparr>d_repDecimalsInd := v\<rparr>"
    | (digit) t k where "quotient_digit e (advance s1 (next_digit e s)) = Inr (t, k)"
        "div_step e s = emit e t k"
    by auto
  then show ?thesis
  proof cases
    case tests
    with i1 show ?thesis by simp
  next
    case rep
    with i1 show ?thesis by (simp add: step_inv_def)
  next
    case digit
    from step_digit [OF e i, folded s1_def] digit(1)
    have k: "0 \<le> k" "k \<le> 9" and t: "canonical (d_divPart t)"
        "dec_val (d_divPart t) < val (e_bCopy e)"
      by auto
    from digit(2) st have em: "emit e t k = Continue s' \<or> emit e t k = Break s'" by simp
    note qf = quotient_digit_fields [OF digit(1)]
    note ef = emit_fields [OF em]
    from i have "list_all (\<lambda>c. (of_char c :: int) \<le> 9) (d_result t)" "0 \<le> d_i t"
      by (simp_all add: qf advance_fields s1_def step_inv_def)
    with emit_result [OF em k] t show ?thesis by (simp add: step_inv_def ef)
  qed
qed

lemma div_iter_inv:
  "env_ok e \<Longrightarrow> step_inv e s0 \<Longrightarrow> div_iter n e s0 = Some s \<Longrightarrow> step_inv e s"
proof (induction n arbitrary: s0)
  case 0
  then show ?case by simp
next
  case (Suc n)
  from Suc.prems(3) obtain s1 where s1: "div_step e s0 = Continue s1" "div_iter n e s1 = Some s"
    by (auto split: loop_exit.splits)
  from div_step_inv [OF Suc.prems(1,2)] s1(1) have "step_inv e s1" by simp
  from Suc.IH [OF Suc.prems(1) this s1(2)] show ?case .
qed

lemma div_loop_inv:
  "env_ok e \<Longrightarrow> step_inv e s \<Longrightarrow> div_loop e s = Inr s' \<Longrightarrow> step_inv e s'"
proof (induction e s rule: div_loop.induct)
  case (1 e s)
  note st = div_step_inv [OF "1.prems"(1,2)]
  show ?case
  proof (cases "div_step e s")
    case (Break t)
    with "1.prems"(3) st [of t] show ?thesis by (simp add: div_loop.simps [of e s])
  next
    case (Continue t)
    with "1.prems"(3) st [of t] "1.IH" [OF Continue "1.prems"(1)] show ?thesis
      by (simp add: div_loop.simps [of e s])
  next
    case (Failed err)
    with "1.prems"(3) show ?thesis by (simp add: div_loop.simps [of e s])
  qed
qed

lemma div_env_ok:
  assumes "natural bC" "1 \<le> val bC" "list_all IsDigit (Norm aC)"
  shows "env_ok (div_env aC bC ro)"
proof -
  from assms(1) have "Len bC = int (length (Norm bC))" by (simp add: natural_def)
  then show ?thesis using assms by (auto simp: env_ok_def div_env_def Let_def)
qed

lemma div_init_inv:
  assumes b: "natural bC" "1 \<le> val bC" and a: "natural aC"
  shows "step_inv (div_env aC bC ro) (div_init aC bC r0)"
proof -
  define N where "N = Norm bC"
  define m where "m = nat (if Len bC - 1 > int (length (Norm aC)) then int (length (Norm aC))
                    else Len bC - 1)"
  from b(1) have nN: "list_all IsDigit N" "N \<noteq> []" "Len bC = int (length N)"
    by (simp_all add: natural_def N_def)
  from b natural_zero_iff(1) [OF b(1)] have "N \<noteq> ''0''" by (auto simp: N_def)
  with b(1) have hd: "hd N \<noteq> CHR ''0''" by (auto simp: natural_def N_def)
  from a have ca: "canonical (Norm aC)" by (simp add: natural_canonical)
  have mlen: "m \<le> length N - 1" using nN by (auto simp: m_def)
  have dt: "list_all IsDigit (take m (Norm aC))"
    using ca by (auto simp: canonical_def list_all_iff dest: in_set_takeD)
  have ct: "canonical (take m (Norm aC))"
  proof (cases "m = 0")
    case True
    then show ?thesis by (simp add: canonical_def)
  next
    case False
    then have "hd (take m (Norm aC)) = hd (Norm aC)" by simp
    moreover have "Norm aC = ''0'' \<Longrightarrow> take m (Norm aC) = ''0''" using False by simp
    ultimately show ?thesis using ca dt by (auto simp: canonical_def)
  qed
  have "dec_val (take m (Norm aC)) < 10 ^ length (take m (Norm aC))" by (rule dec_val_bound [OF dt])
  also have "\<dots> \<le> (10::int) ^ (length N - 1)" using mlen by (intro power_increasing) simp_all
  also have "\<dots> \<le> val bC" using dec_val_lower [OF nN(1,2) hd] by (simp add: val_def N_def)
  finally have lt: "dec_val (take m (Norm aC)) < val bC" .
  have "d_divPart (div_init aC bC r0) = take m (Norm aC)" by (simp add: div_init_def Let_def m_def)
  moreover have "d_i (div_init aC bC r0) = Len bC - 1" "d_result (div_init aC bC r0) = []"
    by (simp_all add: div_init_def Let_def)
  moreover have "e_bCopy (div_env aC bC ro) = bC" by (simp add: div_env_def Let_def)
  ultimately show ?thesis using ct lt nN by (simp add: step_inv_def)
qed

lemma shifted_operands:
  assumes "wf a" "wf b" "\<not> is_zero a" "\<not> is_zero b"
  defines "sh \<equiv> Decimals a + Decimals b"
  shows "natural (shifted a sh)" "natural (shifted b sh)" "1 \<le> val (shifted a sh)"
    "1 \<le> val (shifted b sh)"
    "val (shifted a sh) = val a * 10 ^ nat (Decimals b)"
    "val (shifted b sh) = val b * 10 ^ nat (Decimals a)"
    "hd (Norm (shifted a sh)) \<noteq> CHR ''0''" "hd (Norm (shifted b sh)) \<noteq> CHR ''0''"
proof -
  from assms(1,2) have d: "0 \<le> Decimals a" "0 \<le> Decimals b"
    by (simp_all add: wf_def invariant_def I2_def)
  then have le: "Decimals a \<le> sh" "Decimals b \<le> sh" by (simp_all add: sh_def)
  note sa = shifted_natural [OF assms(1,3) le(1)]
  note sb = shifted_natural [OF assms(2,4) le(2)]
  show "natural (shifted a sh)" "natural (shifted b sh)" by (rule sa(1), rule sb(1))
  show "hd (Norm (shifted a sh)) \<noteq> CHR ''0''" "hd (Norm (shifted b sh)) \<noteq> CHR ''0''"
    by (rule sa(2), rule sb(2))
  have low: "\<And>x. natural x \<Longrightarrow> hd (Norm x) \<noteq> CHR ''0'' \<Longrightarrow> 1 \<le> val x"
  proof -
    fix x assume "natural x" "hd (Norm x) \<noteq> CHR ''0''"
    then have "10 ^ (length (Norm x) - 1) \<le> dec_val (Norm x)"
      by (intro dec_val_lower) (simp_all add: natural_def)
    moreover have "(1::int) \<le> 10 ^ (length (Norm x) - 1)" by simp
    ultimately show "1 \<le> val x" unfolding val_def by linarith
  qed
  show "1 \<le> val (shifted a sh)" by (rule low [OF sa(1,2)])
  show "1 \<le> val (shifted b sh)" by (rule low [OF sb(1,2)])
  show "val (shifted a sh) = val a * 10 ^ nat (Decimals b)" using sa(3) by (simp add: sh_def)
  show "val (shifted b sh) = val b * 10 ^ nat (Decimals a)" using sb(3) by (simp add: sh_def)
qed

text \<open>
  C3.  The string \<open>0.5e2\<close> parses to the digits \<open>050\<close> without decimals: the folding of
  the exponent keeps the zero in front.  In the division of 750 by this value the loop
  starts with \<open>divPart = 75\<close> and appends the digit \<open>0\<close>.  The estimate from the
  prefixes \<open>750\<close> and \<open>050\<close> is 15; the product 750 does not exceed \<open>divPart\<close>, so
  the estimate is not corrected, and the iteration emits the quotient digit 15, which
  is no decimal digit.  \<open>Div\<close> returns the one-byte buffer \<open>?\<close> (the byte 15 + 48).
\<close>

theorem quotient_digit_15:
  "SetString BigFloat0 ''0.5e2'' = Inr \<lparr>Norm = ''050'', Sign = 1, Decimals = 0, Len = 3\<rparr> \<and>
   SetString BigFloat0 ''750'' = Inr \<lparr>Norm = ''750'', Sign = 1, Decimals = 0, Len = 3\<rparr> \<and>
   shifted \<lparr>Norm = ''750'', Sign = 1, Decimals = 0, Len = 3\<rparr> 0 =
     \<lparr>Norm = ''750'', Sign = 1, Decimals = 0, Len = 3\<rparr> \<and>
   shifted \<lparr>Norm = ''050'', Sign = 1, Decimals = 0, Len = 3\<rparr> 0 =
     \<lparr>Norm = ''050'', Sign = 1, Decimals = 0, Len = 3\<rparr> \<and>
   d_divPart (advance (div_init \<lparr>Norm = ''750'', Sign = 1, Decimals = 0, Len = 3\<rparr>
                         \<lparr>Norm = ''050'', Sign = 1, Decimals = 0, Len = 3\<rparr> BigFloat0)
                (CHR ''0'')) = ''750'' \<and>
   guess_digit (div_env \<lparr>Norm = ''750'', Sign = 1, Decimals = 0, Len = 3\<rparr>
                  \<lparr>Norm = ''050'', Sign = 1, Decimals = 0, Len = 3\<rparr> (div_options []))
     ''750'' = Inr 15 \<and>
   fix_digit \<lparr>Norm = ''050'', Sign = 1, Decimals = 0, Len = 3\<rparr> ''750'' 15 =
     (15, \<lparr>Norm = ''0'', Sign = 1, Decimals = 0, Len = 1\<rparr>, ''0'') \<and>
   div_step (div_env \<lparr>Norm = ''750'', Sign = 1, Decimals = 0, Len = 3\<rparr>
               \<lparr>Norm = ''050'', Sign = 1, Decimals = 0, Len = 3\<rparr> (div_options []))
     (div_init \<lparr>Norm = ''750'', Sign = 1, Decimals = 0, Len = 3\<rparr>
        \<lparr>Norm = ''050'', Sign = 1, Decimals = 0, Len = 3\<rparr> BigFloat0) =
     Continue \<lparr>d_i = 3, d_divPart = ''0'', d_bDecimals = False, d_remIndxMap = [],
       d_repDecimalsInd = - 1, d_decimals = 0,
       d_lastRemainder = \<lparr>Norm = ''75'', Sign = 1, Decimals = 0, Len = 2\<rparr>,
       d_remainder = \<lparr>Norm = ''0'', Sign = 1, Decimals = 0, Len = 1\<rparr>,
       d_remShared = True, d_result = [char_of (15 :: nat)]\<rparr> \<and>
   Div New \<lparr>Norm = ''750'', Sign = 1, Decimals = 0, Len = 3\<rparr>
       \<lparr>Norm = ''050'', Sign = 1, Decimals = 0, Len = 3\<rparr> [] =
     (\<lparr>Norm = ''?'', Sign = 1, Decimals = 0, Len = 1\<rparr>, Inr 0) \<and>
   String \<lparr>Norm = ''?'', Sign = 1, Decimals = 0, Len = 1\<rparr> = ''?''"
  by code_simp

text \<open>
  On well-formed operands the digit is exact.  Take operands that are well formed and
  not zero, and any state \<open>s\<close> that the loop of \<open>divmod\<close> reaches at the head of an
  iteration.  There the running remainder \<open>divPart\<close> is below the divisor and every
  quotient digit emitted so far is a byte from 0 to 9.  After the next digit of the
  dividend has been appended, the estimate \<open>g\<close> from the leading digits is the true
  digit \<open>q = divPart div divisor\<close> or one more; the corrected digit that the iteration
  produces is \<open>q\<close>, it lies in 0..9, and the new \<open>divPart\<close> is the old one minus \<open>q\<close>
  times the divisor, which is again below the divisor.  The loop ends, and the same two
  facts hold of the state it ends in.
\<close>

theorem quotient_digit_exact:
  assumes "wf a" and "wf b" and "\<not> is_zero a" and "\<not> is_zero b"
    and "div_iter n (div_env (shifted a (Decimals a + Decimals b))
                       (shifted b (Decimals a + Decimals b)) (div_options opts))
           (div_init (shifted a (Decimals a + Decimals b))
              (shifted b (Decimals a + Decimals b)) r0) = Some s"
  shows "let sh = Decimals a + Decimals b;
             e = div_env (shifted a sh) (shifted b sh) (div_options opts);
             divisor = val (shifted b sh);
             t0 = advance (s\<lparr>d_bDecimals := next_bDecimals e s\<rparr>) (next_digit e s);
             q = dec_val (d_divPart t0) div divisor
         in dec_val (d_divPart s) < divisor \<and>
            list_all (\<lambda>c. (of_char c :: int) \<le> 9) (d_result s) \<and>
            (\<exists>g t. guess_digit e (d_divPart t0) = Inr g \<and> (g = q \<or> g = q + 1) \<and>
               quotient_digit e t0 = Inr (t, q) \<and> 0 \<le> q \<and> q \<le> 9 \<and>
               dec_val (d_divPart t) = dec_val (d_divPart t0) - q * divisor \<and>
               0 \<le> dec_val (d_divPart t) \<and> dec_val (d_divPart t) < divisor) \<and>
            (\<exists>s'. div_loop e (div_init (shifted a sh) (shifted b sh) r0) = Inr s' \<and>
               list_all (\<lambda>c. (of_char c :: int) \<le> 9) (d_result s') \<and>
               dec_val (d_divPart s') < divisor)"
proof -
  define sh where "sh = Decimals a + Decimals b"
  define aC where "aC = shifted a sh"
  define bC where "bC = shifted b sh"
  define e where "e = div_env aC bC (div_options opts)"
  define s0 where "s0 = div_init aC bC r0"
  note so = shifted_operands [OF assms(1-4), folded sh_def, folded aC_def bC_def]
  from so(1) have da: "list_all IsDigit (Norm aC)" by (simp add: natural_def)
  have eo: "env_ok e" unfolding e_def by (rule div_env_ok [OF so(2,4) da])
  have i0: "step_inv e s0" unfolding e_def s0_def by (rule div_init_inv [OF so(2,4,1)])
  have eb: "e_bCopy e = bC" by (simp add: e_def div_env_def Let_def)
  from assms(5) have it: "div_iter n e s0 = Some s"
    by (simp add: e_def s0_def aC_def bC_def sh_def)
  have i: "step_inv e s" by (rule div_iter_inv [OF eo i0 it])
  define t0 where "t0 = advance (s\<lparr>d_bDecimals := next_bDecimals e s\<rparr>) (next_digit e s)"
  define q where "q = dec_val (d_divPart t0) div val bC"
  from step_digit [OF eo i, folded t0_def, unfolded eb, folded q_def]
  have 1: "\<exists>g t. guess_digit e (d_divPart t0) = Inr g \<and> (g = q \<or> g = q + 1) \<and>
               quotient_digit e t0 = Inr (t, q) \<and> 0 \<le> q \<and> q \<le> 9 \<and>
               dec_val (d_divPart t) = dec_val (d_divPart t0) - q * val bC \<and>
               0 \<le> dec_val (d_divPart t) \<and> dec_val (d_divPart t) < val bC"
    by blast
  have z: "e_divPart2Int e \<noteq> 0" unfolding e_def by (rule div_env_divPart2Int [OF so(2,8)])
  have "(0::int) < max 1 (maxDecimalPlaces (div_options opts))" by (simp add: less_max_iff_disj)
  with div_loop_exit [OF z div_init_counters, of aC bC r0]
  obtain s' where s': "div_loop e s0 = Inr s'" by (auto simp: e_def s0_def)
  from div_loop_inv [OF eo i0 s'] s'
  have 2: "\<exists>s'. div_loop e s0 = Inr s' \<and> list_all (\<lambda>c. (of_char c :: int) \<le> 9) (d_result s') \<and>
      dec_val (d_divPart s') < val bC"
    by (auto simp: step_inv_def eb)
  from i have 3: "dec_val (d_divPart s) < val bC"
      "list_all (\<lambda>c. (of_char c :: int) \<le> 9) (d_result s)"
    by (simp_all add: step_inv_def eb)
  from 1 2 3 show ?thesis
    unfolding Let_def sh_def [symmetric] aC_def [symmetric] bC_def [symmetric] e_def [symmetric]
      s0_def [symmetric] t0_def [symmetric] q_def [symmetric]
    by blast
qed

theorem quotient_digit_exact_witness:
  "let a = \<lparr>Norm = ''1999980'', Sign = 1, Decimals = 0, Len = 7\<rparr>;
       b = \<lparr>Norm = ''199999'', Sign = 1, Decimals = 0, Len = 6\<rparr>;
       e = div_env (shifted a 0) (shifted b 0) (div_options []);
       s = the (div_iter 1 e (div_init (shifted a 0) (shifted b 0) BigFloat0));
       t0 = advance (s\<lparr>d_bDecimals := next_bDecimals e s\<rparr>) (next_digit e s)
   in wf a \<and> wf b \<and> \<not> is_zero a \<and> \<not> is_zero b \<and>
      div_iter 1 e (div_init (shifted a 0) (shifted b 0) BigFloat0) = Some s \<and>
      d_divPart t0 = ''1999980'' \<and> guess_digit e (d_divPart t0) = Inr 10 \<and>
      (\<exists>t. quotient_digit e t0 = Inr (t, 9) \<and> dec_val (d_divPart t) = 199989)"
proof -
  define a where "a = \<lparr>Norm = ''1999980'', Sign = 1, Decimals = 0, Len = 7\<rparr>"
  define b where "b = \<lparr>Norm = ''199999'', Sign = 1, Decimals = 0, Len = 6\<rparr>"
  define e where "e = div_env (shifted a 0) (shifted b 0) (div_options [])"
  define s where "s = the (div_iter 1 e (div_init (shifted a 0) (shifted b 0) BigFloat0))"
  define t0 where "t0 = advance (s\<lparr>d_bDecimals := next_bDecimals e s\<rparr>) (next_digit e s)"
  have h: "wf a" "wf b" "\<not> is_zero a" "\<not> is_zero b" unfolding a_def b_def by code_simp+
  have d: "Decimals a + Decimals b = 0" by (simp add: a_def b_def)
  have it: "div_iter 1 e (div_init (shifted a 0) (shifted b 0) BigFloat0) = Some s"
    unfolding s_def e_def a_def b_def by code_simp
  have g: "d_divPart t0 = ''1999980''" "guess_digit e (d_divPart t0) = Inr 10"
    unfolding t0_def s_def e_def a_def b_def by code_simp+
  have v: "val (shifted b 0) = 199999" "dec_val (d_divPart t0) = 1999980"
    unfolding g(1) unfolding b_def by code_simp+
  from quotient_digit_exact [of a b 1 "[]" BigFloat0 s, unfolded d, OF h it [unfolded e_def]]
  have "\<exists>t. quotient_digit e t0 = Inr (t, 9) \<and> dec_val (d_divPart t) = 199989"
    unfolding Let_def d e_def [symmetric] t0_def [symmetric] v by auto
  with h it g show ?thesis
    unfolding Let_def a_def [symmetric] b_def [symmetric] e_def [symmetric] s_def [symmetric]
      t0_def [symmetric]
    by simp
qed


subsection \<open>Quotient and remainder\<close>

lemma quot_val_Nil [simp]: "quot_val [] = 0"
  by (simp add: quot_val_def add_bytes_def)

lemma quot_val_snoc:
  "0 \<le> q \<Longrightarrow> q \<le> 9 \<Longrightarrow> quot_val (r @ [char_of q]) = 10 * quot_val r + q"
  using digit_val_ascii [of q] by (simp add: quot_val_def add_bytes_def)

lemma quot_val_zero: "quot_val [char_of (0::nat)] = 0"
proof -
  have "(char_of (0::nat) :: char) = char_of (0::int)" by (simp add: char_of_def)
  then show ?thesis using quot_val_snoc [of 0 "[]"] by simp
qed

lemma int_step:
  assumes e: "env_ok e" and i: "int_phase e s" and lt: "d_i s < int (length (e_aBuf e))"
    and g: "e_decimalsGoal e = 1" and m: "0 < e_maxDecimalPlaces e"
  shows "\<exists>s'. div_step e s = Continue s' \<and> int_phase e s'"
proof -
  define B where "B = val (e_bCopy e)"
  from i have si: "step_inv e s" and f: "\<not> d_bDecimals s" "d_decimals s = 0"
      "d_remIndxMap s = []" "d_repDecimalsInd s = - 1"
    and rz: "d_result s = [] \<or> 0 < quot_val (d_result s)"
    and v: "dec_val (take (nat (d_i s)) (e_aBuf e)) = quot_val (d_result s) * B + dec_val (d_divPart s)"
    by (simp_all add: int_phase_def B_def)
  from si have i0: "0 \<le> d_i s" and cD: "canonical (d_divPart s)" by (simp_all add: step_inv_def)
  have nb: "next_bDecimals e s = False" using lt f(1) by (simp add: next_bDecimals_def)
  then have s1: "s\<lparr>d_bDecimals := next_bDecimals e s\<rparr> = s" using f(1) by simp
  define c where "c = next_digit e s"
  define t0 where "t0 = advance s c"
  define q where "q = dec_val (d_divPart t0) div B"
  from step_digit [OF e si, unfolded s1, folded c_def, folded t0_def, folded B_def, folded q_def]
  obtain t where t: "quotient_digit e t0 = Inr (t, q)" "0 \<le> q" "q \<le> 9"
      "dec_val (d_divPart t) = dec_val (d_divPart t0) - q * B"
    by blast
  from e have dg: "list_all IsDigit (e_aBuf e)" by (simp add: env_ok_def)
  have cd: "IsDigit c" unfolding c_def by (rule next_digit_IsDigit [OF dg i0])
  have t0v: "dec_val (d_divPart t0) = 10 * dec_val (d_divPart s) + digit_val c"
    unfolding t0_def by (rule advance_divPart(3) [OF cD cd])
  note qf = quotient_digit_fields [OF t(1)]
  have ds: "div_step e s = emit e t q"
    using t(1) f g unfolding div_step_def Let_def s1 c_def [symmetric] t0_def [symmetric]
    by simp
  have tf: "d_bDecimals t = False" "d_decimals t = 0" "d_result t = d_result s"
    "d_remIndxMap t = []" "d_repDecimalsInd t = - 1" "d_i t = d_i s + 1"
    using f by (simp_all add: qf t0_def advance_fields)
  define s' where "s' = (if q > 0 \<or> d_result s \<noteq> [] then t\<lparr>d_result := d_result s @ [char_of q]\<rparr> else t)"
  have em: "emit e t q = Continue s'"
    using m by (auto simp: emit_def Let_def tf s'_def)
  have si': "step_inv e s'" using div_step_inv [OF e si] ds em by simp
  have qv: "quot_val (d_result s') = 10 * quot_val (d_result s) + q"
  proof (cases "q > 0 \<or> d_result s \<noteq> []")
    case True
    then show ?thesis using t(2,3) by (simp add: s'_def quot_val_snoc)
  next
    case False
    with t(2) have "q = 0" by simp
    with False show ?thesis by (simp add: s'_def tf)
  qed
  have rz': "d_result s' = [] \<or> 0 < quot_val (d_result s')"
  proof (cases "q > 0 \<or> d_result s \<noteq> []")
    case True
    with rz t(2) have "0 < 10 * quot_val (d_result s) + q" by auto
    then show ?thesis using qv by simp
  next
    case False
    then show ?thesis by (simp add: s'_def tf)
  qed
  have dp: "d_divPart s' = d_divPart t" and i': "d_i s' = d_i s + 1"
    and fl: "\<not> d_bDecimals s'" "d_decimals s' = 0" "d_remIndxMap s' = []" "d_repDecimalsInd s' = - 1"
    by (simp_all add: s'_def tf)
  have cn: "c = e_aBuf e ! nat (d_i s)" using lt by (simp add: c_def next_digit_def)
  have "nat (d_i s + 1) = Suc (nat (d_i s))" using i0 by simp
  moreover have "nat (d_i s) < length (e_aBuf e)" using lt i0 by simp
  ultimately have "take (nat (d_i s + 1)) (e_aBuf e) = take (nat (d_i s)) (e_aBuf e) @ [c]"
    by (simp add: take_Suc_conv_app_nth cn)
  then have "dec_val (take (nat (d_i s')) (e_aBuf e)) =
      10 * (quot_val (d_result s) * B + dec_val (d_divPart s)) + digit_val c"
    using v by (simp add: i')
  also have "\<dots> = (10 * quot_val (d_result s) + q) * B + (dec_val (d_divPart t0) - q * B)"
    unfolding t0v by (simp add: algebra_simps)
  finally have v': "dec_val (take (nat (d_i s')) (e_aBuf e)) =
      quot_val (d_result s') * B + dec_val (d_divPart s')"
    by (simp add: qv dp t(4))
  have "int_phase e s'"
    unfolding int_phase_def using si' fl rz' v' by (simp add: B_def)
  with ds em show ?thesis by simp
qed

lemma frac_exit:
  assumes e: "env_ok e" and i: "int_phase e s" and ge: "d_i s \<ge> int (length (e_aBuf e))"
    and g: "e_decimalsGoal e = 1" and m: "1 < e_maxDecimalPlaces e"
    and nz: "dec_val (d_divPart s) \<noteq> 0"
  shows "\<exists>s' (q1::int). div_loop e s = Inr s' \<and> d_decimals s' = 1 \<and> d_repDecimalsInd s' = - 1 \<and>
      d_lastRemainder s' = \<lparr>Norm = d_divPart s, Sign = 1, Decimals = 0,
                             Len = int (length (d_divPart s))\<rparr> \<and>
      d_result s' = (if d_result s = [] then [char_of (0::nat)] else d_result s) @ [char_of q1] \<and>
      0 \<le> q1 \<and> q1 \<le> 9"
proof -
  from i have si: "step_inv e s" and f: "\<not> d_bDecimals s" "d_decimals s = 0"
      "d_remIndxMap s = []" "d_repDecimalsInd s = - 1"
    by (simp_all add: int_phase_def)
  from nz have D0: "d_divPart s \<noteq> ''0''" by (auto simp: digit_val_zero)
  have nb: "next_bDecimals e s = True" using ge by (simp add: next_bDecimals_def)
  define s1 where "s1 = s\<lparr>d_bDecimals := next_bDecimals e s\<rparr>"
  define c where "c = next_digit e s"
  define t0 where "t0 = advance s1 c"
  define q where "q = dec_val (d_divPart t0) div val (e_bCopy e)"
  from step_digit [OF e si, folded s1_def, folded c_def, folded t0_def, folded q_def]
  obtain t where t: "quotient_digit e t0 = Inr (t, q)" "0 \<le> q" "q \<le> 9"
    by blast
  note qf = quotient_digit_fields [OF t(1)]
  have s1f: "d_bDecimals s1" "d_decimals s1 = 0" "d_remIndxMap s1 = []"
    "d_divPart s1 = d_divPart s" "d_result s1 = d_result s" "d_repDecimalsInd s1 = - 1"
    using f nb by (simp_all add: s1_def)
  have ds: "div_step e s = emit e t q"
    using t(1) g D0 s1f unfolding div_step_def Let_def s1_def [symmetric] c_def [symmetric]
      t0_def [symmetric]
    by simp
  have tf: "d_bDecimals t" "d_decimals t = 1" "d_result t = d_result s"
    "d_repDecimalsInd t = - 1"
    "d_lastRemainder t = \<lparr>Norm = d_divPart s, Sign = 1, Decimals = 0,
                             Len = int (length (d_divPart s))\<rparr>"
    using s1f D0 by (simp_all add: qf t0_def advance_fields)
  define s2 where "s2 = t\<lparr>d_result := (if d_result s = [] then [char_of (0::nat)] else d_result s)
                              @ [char_of q]\<rparr>"
  have em: "emit e t q = Continue s2"
    using m by (simp add: emit_def Let_def tf s2_def)
  have s2f: "d_bDecimals s2" "d_decimals s2 = 1" by (simp_all add: s2_def tf)
  have nb2: "s2\<lparr>d_bDecimals := next_bDecimals e s2\<rparr> = s2"
    using s2f(1) by (simp add: next_bDecimals_def)
  have br: "div_step e s2 = Break s2"
    unfolding div_step_def Let_def nb2 using g s2f by simp
  have "div_loop e s = div_loop e s2" using ds em by (simp add: div_loop.simps [of e s])
  also have "\<dots> = Inr s2" using br by (simp add: div_loop.simps [of e s2])
  finally have "div_loop e s = Inr s2" .
  then show ?thesis using t(2,3)
    by (rule_tac x = s2 in exI, rule_tac x = q in exI) (simp add: s2_def tf)
qed

text \<open>What the loop leaves when the division at the integer boundary is not exact.\<close>

lemma int_loop:
  "env_ok e \<Longrightarrow> int_phase e s \<Longrightarrow> e_decimalsGoal e = 1 \<Longrightarrow> 1 < e_maxDecimalPlaces e \<Longrightarrow>
   dec_val (e_aBuf e) mod val (e_bCopy e) \<noteq> 0 \<Longrightarrow>
   \<exists>s' D R (q1::int). div_loop e s = Inr s' \<and> d_decimals s' = 1 \<and> d_repDecimalsInd s' = - 1 \<and>
      d_lastRemainder s' = \<lparr>Norm = D, Sign = 1, Decimals = 0, Len = int (length D)\<rparr> \<and>
      canonical D \<and> dec_val D = dec_val (e_aBuf e) mod val (e_bCopy e) \<and>
      d_result s' = R @ [char_of q1] \<and> 0 \<le> q1 \<and> q1 \<le> 9 \<and> R \<noteq> [] \<and>
      list_all (\<lambda>c. (of_char c :: int) \<le> 9) R \<and>
      quot_val R = dec_val (e_aBuf e) div val (e_bCopy e) \<and>
      (dec_val (e_aBuf e) div val (e_bCopy e) = 0 \<longrightarrow> R = [char_of (0::nat)])"
proof (induction e s rule: div_loop.induct)
  case (1 e s)
  define A where "A = dec_val (e_aBuf e)"
  define B where "B = val (e_bCopy e)"
  note e = "1.prems"(1) and i = "1.prems"(2) and g = "1.prems"(3) and m = "1.prems"(4)
    and nz = "1.prems"(5)
  show ?case
  proof (cases "d_i s < int (length (e_aBuf e))")
    case True
    from m have "0 < e_maxDecimalPlaces e" by simp
    from int_step [OF e i True g this] obtain s1 where
      s1: "div_step e s = Continue s1" "int_phase e s1" by blast
    have "div_loop e s = div_loop e s1" using s1(1) by (simp add: div_loop.simps [of e s])
    with "1.IH" [OF s1(1) e s1(2) g m nz] show ?thesis by simp
  next
    case False
    then have ge: "d_i s \<ge> int (length (e_aBuf e))" by simp
    from e have Bp: "0 < B" by (simp add: env_ok_def B_def)
    from i have si: "step_inv e s"
      and rz: "d_result s = [] \<or> 0 < quot_val (d_result s)"
      and v: "dec_val (take (nat (d_i s)) (e_aBuf e)) = quot_val (d_result s) * B + dec_val (d_divPart s)"
      by (simp_all add: int_phase_def B_def)
    from si have cD: "canonical (d_divPart s)" and lt: "dec_val (d_divPart s) < B"
      and rs: "list_all (\<lambda>c. (of_char c :: int) \<le> 9) (d_result s)"
      by (simp_all add: step_inv_def B_def)
    from cD have D0: "0 \<le> dec_val (d_divPart s)" by (simp add: canonical_def dec_val_nonneg)
    have "take (nat (d_i s)) (e_aBuf e) = e_aBuf e" using ge by simp
    with v have A: "A = quot_val (d_result s) * B + dec_val (d_divPart s)" by (simp add: A_def)
    have dv: "A div B = quot_val (d_result s)" "A mod B = dec_val (d_divPart s)"
      unfolding A using D0 lt Bp by simp_all
    from nz dv(2) have nz': "dec_val (d_divPart s) \<noteq> 0" by (simp add: A_def B_def)
    from frac_exit [OF e i ge g m nz'] obtain s' and q1 :: int where s':
        "div_loop e s = Inr s'" "d_decimals s' = 1" "d_repDecimalsInd s' = - 1"
        "d_lastRemainder s' = \<lparr>Norm = d_divPart s, Sign = 1, Decimals = 0,
                             Len = int (length (d_divPart s))\<rparr>"
        "d_result s' = (if d_result s = [] then [char_of (0::nat)] else d_result s) @ [char_of q1]"
        "0 \<le> q1" "q1 \<le> 9"
      by blast
    define R where "R = (if d_result s = [] then [char_of (0::nat)] else d_result s)"
    have z9: "(of_char (char_of (0::nat) :: char) :: int) \<le> 9"
    proof -
      have "(char_of (0::nat) :: char) = char_of (0::int)" by (simp add: char_of_def)
      then show ?thesis by simp
    qed
    have R1: "R \<noteq> []" "list_all (\<lambda>c. (of_char c :: int) \<le> 9) R"
      using rs z9 by (simp_all add: R_def)
    have R2: "quot_val R = A div B" using dv(1) by (simp add: R_def quot_val_zero)
    have R3: "A div B = 0 \<longrightarrow> R = [char_of (0::nat)]" using rz dv(1) by (auto simp: R_def)
    from s' R1 R2 R3 cD dv(2) show ?thesis
      unfolding A_def B_def R_def [symmetric]
      by (rule_tac x = s' in exI, rule_tac x = "d_divPart s" in exI, rule_tac x = R in exI,
          rule_tac x = q1 in exI) simp
  qed
qed

lemma div_init_int_phase:
  assumes b: "natural bC" "1 \<le> val bC" and a: "natural aC"
  shows "int_phase (div_env aC bC ro) (div_init aC bC r0)"
proof -
  have si: "step_inv (div_env aC bC ro) (div_init aC bC r0)" by (rule div_init_inv [OF b a])
  have "take (nat (Len bC - 1)) (Norm aC) =
      take (nat (if Len bC - 1 > int (length (Norm aC)) then int (length (Norm aC))
                 else Len bC - 1)) (Norm aC)"
    by simp
  then show ?thesis
    using si by (simp add: int_phase_def div_init_def div_env_def Let_def)
qed

lemma DivMod_options:
  "decimalPlaces (div_options [WithDivDecimalPlaces 0]) = 0"
  "maxDecimalPlaces (div_options [WithDivDecimalPlaces 0]) = 10000"
  "e_decimalsGoal (div_env aC bC (div_options [WithDivDecimalPlaces 0])) = 1"
  "e_maxDecimalPlaces (div_env aC bC (div_options [WithDivDecimalPlaces 0])) = 10000"
  "e_aBuf (div_env aC bC ro) = Norm aC" "e_bCopy (div_env aC bC ro) = bC"
  by (simp_all add: div_options_def div_env_def Let_def wrap_int_def)

lemma add_bytes_zero: "add_bytes [char_of (0::nat)] 48 = ''0''"
  by code_simp

lemma add_bytes_digits:
  "list_all (\<lambda>c. (of_char c :: int) \<le> 9) R \<Longrightarrow> list_all IsDigit (add_bytes R 48)"
proof (induction R)
  case Nil
  then show ?case by (simp add: add_bytes_def)
next
  case (Cons c R)
  have "(of_char c :: int) = int (of_char c)" by (simp add: of_nat_of_char)
  then have "0 \<le> (of_char c :: int)" by simp
  moreover from Cons.prems have "(of_char c :: int) \<le> 9" by simp
  ultimately have "IsDigit (char_of ((of_char (char_of (of_char c :: int) :: char) :: int) + 48))"
    by (rule IsDigit_ascii)
  then have "IsDigit (char_of ((of_char c :: int) + 48))" by simp
  with Cons show ?case by (simp add: add_bytes_def)
qed

text \<open>The quotient that \<open>Trunc\<close> leaves of the digits of the loop and their one decimal.\<close>

lemma Trunc_quotient:
  fixes R :: string and c :: char
  assumes R: "R \<noteq> []" and sg: "sg = 1 \<or> sg = - 1"
  defines "res \<equiv> add_bytes (R @ [c]) 48"
  defines "NQ \<equiv> add_bytes R 48"
  shows "Trunc \<lparr>Norm = res, Sign = sg, Decimals = 1, Len = int (length res)\<rparr> (Some 0) =
     Inr \<lparr>Norm = NQ, Sign = (if sg = - 1 \<and> NQ = ''0'' then 1 else sg), Decimals = 0,
          Len = int (length NQ)\<rparr>"
proof -
  define f where "f = \<lparr>Norm = res, Sign = sg, Decimals = 1, Len = int (length res)\<rparr>"
  have lr: "length res = Suc (length R)" "length NQ = length R"
    by (simp_all add: res_def NQ_def add_bytes_def)
  have rs: "res = NQ @ add_bytes [c] 48" by (simp add: res_def NQ_def add_bytes_def)
  define norm' where "norm' = take (nat (Len f - Decimals f)) (Norm f) @
      map (\<lambda>c. CHR ''0'') (drop (nat (Len f - Decimals f)) (take (nat (Len f)) (Norm f))) @
      drop (nat (Len f)) (Norm f)"
  have n': "norm' = NQ @ ''0''"
    using lr by (simp add: norm'_def f_def rs add_bytes_def)
  define f2 where "f2 = f\<lparr>Norm := norm'\<rparr>"
  have rng: "\<not> (Len f - Decimals f < 0 \<or> Len f > int (length (Norm f)))"
    using lr by (simp add: f_def)
  have tr: "Trunc f (Some 0) = Inr (SetDecimals f2 0)"
    using rng by (simp add: Trunc_def Let_def norm'_def f2_def)
  define f3 where "f3 = \<lparr>Norm = NQ, Sign = sg, Decimals = 0, Len = int (length NQ)\<rparr>"
  have "take (nat (Len f2 - Decimals f2 + 0)) (Norm f2) = NQ"
    using lr by (simp add: f2_def f_def n')
  then have sd: "SetDecimals f2 0 = SetSign f3 sg"
    by (simp add: SetDecimals.simps [of f2 0] Let_def f3_def) (simp add: f2_def f_def)
  have z: "IsInt64 (f3\<lparr>Sign := 1\<rparr>) 0 \<longleftrightarrow> NQ = ''0''"
    by (auto simp: IsInt64_0 f3_def)
  have "SetSign f3 sg = f3\<lparr>Sign := (if sg = - 1 \<and> NQ = ''0'' then 1 else sg)\<rparr>"
    using sg z by (auto simp: SetSign.simps [of f3 sg] Let_def)
  with tr sd show ?thesis by (simp add: f_def f3_def)
qed

lemma Div10_natural:
  assumes "0 \<le> n"
  shows "Sign (Div10 \<lparr>Norm = D, Sign = 1, Decimals = 0, Len = int (length D)\<rparr> n) = 1"
    "Decimals (Div10 \<lparr>Norm = D, Sign = 1, Decimals = 0, Len = int (length D)\<rparr> n) = n"
    "val (Div10 \<lparr>Norm = D, Sign = 1, Decimals = 0, Len = int (length D)\<rparr> n) = dec_val D"
    "Len (Div10 \<lparr>Norm = D, Sign = 1, Decimals = 0, Len = int (length D)\<rparr> n) =
       int (length (Norm (Div10 \<lparr>Norm = D, Sign = 1, Decimals = 0, Len = int (length D)\<rparr> n)))"
    "n < Len (Div10 \<lparr>Norm = D, Sign = 1, Decimals = 0, Len = int (length D)\<rparr> n)"
  using assms by (auto simp: Div10_def Let_def fill_def val_def dec_val_append)

lemma wf_sign: "wf x \<Longrightarrow> Sign x = 1 \<or> Sign x = - 1"
  by (auto simp: wf_def invariant_def I3_def split: if_splits)

lemma wf_zero_val: "wf x \<Longrightarrow> is_zero x \<longleftrightarrow> val x = 0"
  by (simp add: wf_def invariant_def all_digits_def is_zero_def val_def dec_val_zero_iff)

text \<open>
  C4, as the claim states it.  \<open>DivMod\<close> of 1.8 by 0.7 returns the quotient 2 and the
  remainder with digits \<open>040\<close> and two decimals, formatted \<open>0.40\<close>: the remainder is
  scaled to the sum of the decimal places of the operands, not to their maximum, which
  is 1.  \<open>DivMod\<close> of -1 by 8 returns the quotient 0 with sign \<open>+1\<close>, not with
  \<open>sign(a) * sign(b) = -1\<close>.
\<close>

theorem DivMod_remainder_scale:
  "DivMod New \<lparr>Norm = ''18'', Sign = 1, Decimals = 1, Len = 2\<rparr>
       \<lparr>Norm = ''07'', Sign = 1, Decimals = 1, Len = 2\<rparr> =
     (\<lparr>Norm = ''2'', Sign = 1, Decimals = 0, Len = 1\<rparr>,
      Inr \<lparr>Norm = ''040'', Sign = 1, Decimals = 2, Len = 3\<rparr>) \<and>
   Decimals \<lparr>Norm = ''040'', Sign = 1, Decimals = 2, Len = 3\<rparr> \<noteq>
     maxInt (Decimals \<lparr>Norm = ''18'', Sign = 1, Decimals = 1, Len = 2\<rparr>)
            (Decimals \<lparr>Norm = ''07'', Sign = 1, Decimals = 1, Len = 2\<rparr>) \<and>
   String \<lparr>Norm = ''040'', Sign = 1, Decimals = 2, Len = 3\<rparr> = ''0.40'' \<and>
   DivMod New \<lparr>Norm = ''1'', Sign = - 1, Decimals = 0, Len = 1\<rparr>
       \<lparr>Norm = ''8'', Sign = 1, Decimals = 0, Len = 1\<rparr> =
     (\<lparr>Norm = ''0'', Sign = 1, Decimals = 0, Len = 1\<rparr>,
      Inr \<lparr>Norm = ''1'', Sign = 1, Decimals = 0, Len = 1\<rparr>) \<and>
   Sign \<lparr>Norm = ''0'', Sign = 1, Decimals = 0, Len = 1\<rparr> \<noteq>
     Sign \<lparr>Norm = ''1'', Sign = - 1, Decimals = 0, Len = 1\<rparr> *
     Sign \<lparr>Norm = ''8'', Sign = 1, Decimals = 0, Len = 1\<rparr>"
  by code_simp

text \<open>
  C4, amended.  Let \<open>a\<close> and \<open>b\<close> be well formed, \<open>b\<close> not zero, the destination an
  object of its own, and let
  \<open>A = |a| * 10 ^ s\<close> and \<open>B = |b| * 10 ^ s\<close> be the operands at the integer boundary,
  \<open>s\<close> the sum of their decimal places (as integers: the digits of \<open>a\<close> followed by
  \<open>decimals b\<close> zeros, and the digits of \<open>b\<close> followed by \<open>decimals a\<close> zeros).  When
  \<open>B\<close> does not divide \<open>A\<close>, \<open>DivMod\<close> returns a quotient \<open>q\<close> and a remainder \<open>r\<close>
  such that \<open>q\<close> has no decimals and the digits \<open>A div B\<close>, with the sign
  \<open>sign(a) * sign(b)\<close>, or \<open>+1\<close> when it is 0; \<open>r\<close> has the sign \<open>+1\<close>, \<open>s\<close> decimal
  places and the digits \<open>A mod B\<close>.  So \<open>q * B + r = A\<close> with \<open>0 \<le> r < B\<close> on the
  digits, which is \<open>q * |b| + r = |a|\<close> with \<open>0 \<le> r < |b|\<close> on the values.
\<close>

theorem DivMod_inexact:
  assumes "wf a" and "wf b" and "\<not> is_zero b"
    and "(val a * 10 ^ nat (Decimals b)) mod (val b * 10 ^ nat (Decimals a)) \<noteq> 0"
  shows "let A = val a * 10 ^ nat (Decimals b); B = val b * 10 ^ nat (Decimals a)
         in \<exists>q r. DivMod f a b = (q, Inr r) \<and>
              Decimals q = 0 \<and> val q = A div B \<and>
              Sign q = (if A div B = 0 then 1 else Sign a * Sign b) \<and>
              Sign r = 1 \<and> Decimals r = Decimals a + Decimals b \<and> val r = A mod B \<and>
              val q * B + val r = A \<and> 0 \<le> val r \<and> val r < B"
proof -
  define A where "A = val a * 10 ^ nat (Decimals b)"
  define B where "B = val b * 10 ^ nat (Decimals a)"
  define sh where "sh = Decimals a + Decimals b"
  define aC where "aC = shifted a sh"
  define bC where "bC = shifted b sh"
  define ro where "ro = div_options [WithDivDecimalPlaces 0]"
  define e where "e = div_env aC bC ro"
  from assms(4) have nz: "A mod B \<noteq> 0" by (simp add: A_def B_def)
  have za: "\<not> is_zero a"
  proof
    assume "is_zero a"
    with assms(1) have "val a = 0" by (simp add: wf_zero_val)
    with nz show False by (simp add: A_def)
  qed
  note so = shifted_operands [OF assms(1,2) za assms(3), folded sh_def, folded aC_def bC_def]
  have vA: "val aC = A" and vB: "val bC = B" using so(5,6) by (simp_all add: A_def B_def)
  have Bp: "0 < B" using so(4) vB by simp
  from assms(1,2) have d0: "0 \<le> Decimals a" "0 \<le> Decimals b"
    by (simp_all add: wf_def invariant_def I2_def)
  from so(1) have da: "list_all IsDigit (Norm aC)" by (simp add: natural_def)
  have eo: "env_ok e" unfolding e_def by (rule div_env_ok [OF so(2,4) da])
  have ip: "int_phase e (div_init aC bC BigFloat0)"
    unfolding e_def by (rule div_init_int_phase [OF so(2,4,1)])
  have ef: "e_decimalsGoal e = 1" "1 < e_maxDecimalPlaces e" "e_aBuf e = Norm aC" "e_bCopy e = bC"
    by (simp_all add: e_def ro_def DivMod_options)
  have nz': "dec_val (e_aBuf e) mod val (e_bCopy e) \<noteq> 0"
    using nz vA vB by (simp add: ef val_def)
  from int_loop [OF eo ip ef(1,2) nz'] obtain s' D R and q1 :: int where s':
      "div_loop e (div_init aC bC BigFloat0) = Inr s'" "d_decimals s' = 1"
      "d_repDecimalsInd s' = - 1"
      "d_lastRemainder s' = \<lparr>Norm = D, Sign = 1, Decimals = 0, Len = int (length D)\<rparr>"
      "canonical D" "dec_val D = A mod B"
      "d_result s' = R @ [char_of q1]" "R \<noteq> []"
      "list_all (\<lambda>c. (of_char c :: int) \<le> 9) R"
      "quot_val R = A div B" "A div B = 0 \<longrightarrow> R = [char_of (0::nat)]"
    unfolding ef using vA vB by (auto simp: val_def)
  define sg where "sg = Sign a * Sign b"
  have sg: "sg = 1 \<or> sg = - 1" using wf_sign [OF assms(1)] wf_sign [OF assms(2)]
    by (auto simp: sg_def)
  define res where "res = add_bytes (R @ [char_of q1]) 48"
  define NQ where "NQ = add_bytes R 48"
  define q where "q = \<lparr>Norm = NQ, Sign = (if sg = - 1 \<and> NQ = ''0'' then 1 else sg), Decimals = 0,
          Len = int (length NQ)\<rparr>"
  define r where "r = Div10 (d_lastRemainder s') sh"
  have tq: "Trunc \<lparr>Norm = res, Sign = sg, Decimals = 1, Len = int (length res)\<rparr> (Some 0) = Inr q"
    unfolding res_def q_def NQ_def by (rule Trunc_quotient [OF s'(8) sg])
  have pad: "div_pad 1 res 1 0 = Inr (res, 1, 0)" by (simp add: div_pad_def)
  have fin: "div_finish a b True ro e s' = Inr (q, r, 0)"
    unfolding div_finish_def Let_def ef s'(2,3,7) res_def [symmetric]
    using pad tq by (simp add: ro_def DivMod_options div_round_def sg_def r_def sh_def)
  have n0: "\<not> IsInt64 a 0" "\<not> IsInt64 b 0"
    using za assms(3) by (simp_all add: wf_IsInt64_0 [OF assms(1)] wf_IsInt64_0 [OF assms(2)])
  have n1: "\<not> IsInt64 bC 1"
  proof
    assume "IsInt64 bC 1"
    with so(2) have "Norm bC = ''1''" by (simp add: IsInt64_1 natural_def)
    then have "B = 1" using vB by (simp add: val_def digit_val_def)
    with nz show False by simp
  qed
  have dm: "divmod f a b BigFloat0 True [WithDivDecimalPlaces 0] = Inr (q, r, 0)"
    unfolding divmod_def Let_def ro_def [symmetric] sh_def [symmetric] aC_def [symmetric]
      bC_def [symmetric] e_def [symmetric]
    using n0 n1 s'(1) fin by simp
  then have DM: "DivMod f a b = (q, Inr r)" by (simp add: DivMod_def)
  have vq: "val q = A div B" using s'(10) by (simp add: q_def val_def NQ_def quot_val_def)
  have sq: "Sign q = (if A div B = 0 then 1 else Sign a * Sign b)"
  proof (cases "A div B = 0")
    case True
    with s'(11) have "NQ = ''0''" by (simp add: NQ_def add_bytes_zero)
    with True sg show ?thesis by (auto simp: q_def)
  next
    case False
    have "NQ \<noteq> ''0''"
    proof
      assume "NQ = ''0''"
      then have "quot_val R = 0" by (simp add: quot_val_def NQ_def digit_val_def)
      with False s'(10) show False by simp
    qed
    with False show ?thesis by (simp add: q_def sg_def)
  qed
  have sh0: "0 \<le> sh" using d0 by (simp add: sh_def)
  from Div10_natural(1-3) [OF sh0, of D] s'(4,6)
  have rr: "Sign r = 1" "Decimals r = sh" "val r = A mod B" by (simp_all add: r_def)
  have eq: "val q * B + val r = A" unfolding vq rr by simp
  have bd: "0 \<le> val r" "val r < B" unfolding rr using Bp by simp_all
  from DM vq sq rr eq bd show ?thesis
    unfolding Let_def A_def [symmetric] B_def [symmetric]
    by (rule_tac x = q in exI, rule_tac x = r in exI) (simp add: q_def sh_def)
qed

theorem DivMod_inexact_witness:
  "wf \<lparr>Norm = ''18'', Sign = - 1, Decimals = 0, Len = 2\<rparr> \<and>
   wf \<lparr>Norm = ''72'', Sign = 1, Decimals = 1, Len = 2\<rparr> \<and>
   \<not> is_zero \<lparr>Norm = ''72'', Sign = 1, Decimals = 1, Len = 2\<rparr> \<and>
   (180::int) mod 72 \<noteq> 0 \<and>
   DivMod New \<lparr>Norm = ''18'', Sign = - 1, Decimals = 0, Len = 2\<rparr>
       \<lparr>Norm = ''72'', Sign = 1, Decimals = 1, Len = 2\<rparr> =
     (\<lparr>Norm = ''2'', Sign = - 1, Decimals = 0, Len = 1\<rparr>,
      Inr \<lparr>Norm = ''36'', Sign = 1, Decimals = 1, Len = 2\<rparr>) \<and>
   (\<exists>q r. DivMod New \<lparr>Norm = ''18'', Sign = - 1, Decimals = 0, Len = 2\<rparr>
              \<lparr>Norm = ''72'', Sign = 1, Decimals = 1, Len = 2\<rparr> = (q, Inr r) \<and>
      Decimals q = 0 \<and> val q = 2 \<and> Sign q = - 1 \<and> Sign r = 1 \<and> Decimals r = 1 \<and>
      val r = 36 \<and> val q * 72 + val r = 180 \<and> 0 \<le> val r \<and> val r < 72)"
proof -
  define a where "a = \<lparr>Norm = ''18'', Sign = - 1, Decimals = 0, Len = 2\<rparr>"
  define b where "b = \<lparr>Norm = ''72'', Sign = 1, Decimals = 1, Len = 2\<rparr>"
  have h: "wf a" "wf b" "\<not> is_zero b" unfolding a_def b_def by code_simp+
  have v: "val a = 18" "val b = 72" unfolding a_def b_def by code_simp+
  have d: "Decimals a = 0" "Decimals b = 1" "Sign a * Sign b = - 1" by (simp_all add: a_def b_def)
  have m: "(val a * 10 ^ nat (Decimals b)) mod (val b * 10 ^ nat (Decimals a)) \<noteq> 0"
    by (simp add: v d)
  have e: "DivMod New a b =
     (\<lparr>Norm = ''2'', Sign = - 1, Decimals = 0, Len = 1\<rparr>,
      Inr \<lparr>Norm = ''36'', Sign = 1, Decimals = 1, Len = 2\<rparr>)"
    unfolding a_def b_def by code_simp
  from DivMod_inexact [OF h m, of New]
  have "\<exists>q r. DivMod New a b = (q, Inr r) \<and>
      Decimals q = 0 \<and> val q = 2 \<and> Sign q = - 1 \<and> Sign r = 1 \<and> Decimals r = 1 \<and>
      val r = 36 \<and> val q * 72 + val r = 180 \<and> 0 \<le> val r \<and> val r < 72"
    unfolding Let_def v d by simp
  with h e show ?thesis unfolding a_def b_def by simp
qed

text \<open>An exact division, for comparison: \<open>DivMod\<close> of 14 by 7.\<close>

theorem DivMod_exact_remainder:
  "DivMod New \<lparr>Norm = ''14'', Sign = 1, Decimals = 0, Len = 2\<rparr>
       \<lparr>Norm = ''7'', Sign = 1, Decimals = 0, Len = 1\<rparr> =
     (\<lparr>Norm = ''2'', Sign = 1, Decimals = 0, Len = 1\<rparr>,
      Inr \<lparr>Norm = ''1'', Sign = 1, Decimals = 0, Len = 1\<rparr>)"
  by code_simp

end
